theory Spec2Isabelle
  imports Main
begin

section \<open>Strings as the service uses them\<close>

text \<open>
  JavaScript strings are modelled as \<^typ>\<open>string\<close>. The service only handles ASCII
  identifiers, error codes and error messages, so one \<^typ>\<open>char\<close> stands for one
  UTF-16 code unit.
\<close>

text \<open>\<^verbatim>\<open>s.includes(t)\<close>: does \<open>t\<close> occur in \<open>s\<close> as a contiguous substring?\<close>

fun str_includes :: "string \<Rightarrow> string \<Rightarrow> bool" where
  "str_includes [] t = (t = [])"
| "str_includes (c # cs) t = (take (length t) (c # cs) = t \<or> str_includes cs t)"

text \<open>\<^verbatim>\<open>s.toLowerCase()\<close> on ASCII letters.\<close>

definition lower_char :: "char \<Rightarrow> char" where
  "lower_char c = (let n = (of_char c :: nat) in if 65 \<le> n \<and> n \<le> 90 then char_of (n + 32) else c)"

definition toLowerCase :: "string \<Rightarrow> string" where
  "toLowerCase s = map lower_char s"

text \<open>\<^verbatim>\<open>s.substring(i, j)\<close> and \<^verbatim>\<open>s.substring(i)\<close> for \<open>i \<le> j\<close>; both clamp at the end of \<open>s\<close>.\<close>

definition substring :: "string \<Rightarrow> nat \<Rightarrow> nat \<Rightarrow> string" where
  "substring s i j = take (j - i) (drop i s)"

definition substring_from :: "string \<Rightarrow> nat \<Rightarrow> string" where
  "substring_from s i = drop i s"

text \<open>\<^verbatim>\<open>s.padStart(n, "0")\<close>: pads on the left up to length \<open>n\<close>, never truncates.\<close>

definition padStart :: "nat \<Rightarrow> char \<Rightarrow> string \<Rightarrow> string" where
  "padStart n c s = replicate (n - length s) c @ s"

text \<open>The decimal digits of a natural number.\<close>

definition digit_char :: "nat \<Rightarrow> char" where
  "digit_char d = ''0123456789'' ! d"

fun digits :: "nat \<Rightarrow> string" where
  "digits n = (if n < 10 then [digit_char n] else digits (n div 10) @ [digit_char (n mod 10)])"

declare digits.simps [simp del]

section \<open>Numbers as the service uses them\<close>

text \<open>
  Every JavaScript number is an IEEE 754 double. The numbers of the batch controller (the
  range bounds, the loop counter, the two counters of outcomes) hold integers, and an
  integer is modelled by an \<^typ>\<open>int\<close>; so the result of an addition has to be rounded
  to the nearest double, ties going to the even significand of 53 bits. \<open>round_double\<close>
  does this for an integer of magnitude below \<open>2 ^ 1024\<close>.
\<close>

fun bit_length :: "nat \<Rightarrow> nat" where
  "bit_length n = (if n = 0 then 0 else Suc (bit_length (n div 2)))"

declare bit_length.simps [simp del]

definition round_double :: "int \<Rightarrow> int" where
  "round_double n =
     (let m = nat \<bar>n\<bar>;
          sh = bit_length m - 53;
          q = m div 2 ^ sh;
          r = m mod 2 ^ sh;
          q' = (if 2 ^ sh < 2 * r \<or> (2 * r = 2 ^ sh \<and> odd q) then q + 1 else q)
      in sgn n * int (q' * 2 ^ sh))"

text \<open>
  \<^verbatim>\<open>x++\<close> (and \<^verbatim>\<open>x + 1\<close>) on a double holding an integer: exact up to \<open>2 ^ 53\<close>, where the
  successor is no double any more and the sum rounds back to \<open>2 ^ 53\<close> itself.
\<close>

definition js_increment :: "int \<Rightarrow> int" where
  "js_increment i = round_double (i + 1)"

text \<open>
  \<^verbatim>\<open>i.toString()\<close> on a double holding an integer: a minus sign when negative, then the
  shortest decimal digits that read back as the same double, the nearest to it if there
  are several. An integer of magnitude up to \<open>2 ^ 53\<close> is its own shortest decimal. For a
  larger \<open>m\<close>, \<open>shortest m p\<close> looks for a multiple of \<open>10 ^ p\<close> that rounds to \<open>m\<close>, from
  the largest \<open>p\<close> down; only the two multiples around \<open>m\<close> can do so. A number of up to 21
  digits is printed in full, a longer one in exponent notation.
\<close>

fun shortest :: "nat \<Rightarrow> nat \<Rightarrow> nat \<times> nat" where
  "shortest m 0 = (m, 0)"
| "shortest m (Suc p) =
     (let lo = m div 10 ^ Suc p * 10 ^ Suc p;
          hi = lo + 10 ^ Suc p;
          okl = (0 < lo \<and> round_double (int lo) = int m);
          okh = (round_double (int hi) = int m)
      in if okl \<and> (\<not> okh \<or> m - lo < hi - m \<or> (m - lo = hi - m \<and> even (lo div 10 ^ Suc p)))
         then (lo, Suc p)
         else if okh then (hi, Suc p)
         else shortest m p)"

definition to_decimal :: "nat \<Rightarrow> string" where
  "to_decimal m =
     (if m \<le> 9007199254740992 then digits m
      else (case shortest m (length (digits m)) of
              (c, p) \<Rightarrow>
                (let n = length (digits c); ds = digits (c div 10 ^ p)
                 in if n \<le> 21 then digits c
                    else if length ds = 1 then ds @ ''e+'' @ digits (n - 1)
                    else hd ds # ''.'' @ tl ds @ ''e+'' @ digits (n - 1))))"

definition toString :: "int \<Rightarrow> string" where
  "toString k = (if k < 0 then CHR ''-'' # to_decimal (nat (- k)) else to_decimal (nat k))"

section \<open>Single-item fetch: \<^verbatim>\<open>fetchProcessData\<close>\<close>

text \<open>
  A record is a flat mapping from field name to string, kept as an association list in
  the insertion order of the object literal. The field names of the source are
  \<^verbatim>\<open>"Numero do Processo"\<close>, \<^verbatim>\<open>"Data Abertura"\<close>, \<^verbatim>\<open>Interessado\<close>, \<^verbatim>\<open>Requerente\<close>,
  \<^verbatim>\<open>Assunto\<close>, \<^verbatim>\<open>"Complemento do Assunto"\<close>, \<^verbatim>\<open>Situacao\<close>, \<^verbatim>\<open>Observacao\<close> (the header,
  \<^verbatim>\<open>infoBase\<close>; the source writes them with their Portuguese diacritics) and \<^verbatim>\<open>"Data Envio"\<close>, \<^verbatim>\<open>"Secretaria Origem"\<close>, \<^verbatim>\<open>"Setor Origem"\<close>,
  \<^verbatim>\<open>"Data Recebimento"\<close>, \<^verbatim>\<open>"Secretaria Destino"\<close>, \<^verbatim>\<open>"Setor Destino"\<close> (one movement).
\<close>

datatype field =
    NumeroDoProcesso | DataAbertura | Interessado | Requerente | Assunto
  | ComplementoDoAssunto | Situacao | Observacao
  | DataEnvio | SecretariaOrigem | SetorOrigem | DataRecebimento
  | SecretariaDestino | SetorDestino

type_synonym process_record = "(field \<times> string) list"

text \<open>
  The parsed response, as the cheerio queries of the source read it:
  whether \<^verbatim>\<open>table#proc_movimento_PROCESSO_list\<close> exists, the \<^verbatim>\<open>val()\<close> of each header
  input (\<open>None\<close> for \<^verbatim>\<open>undefined\<close>), the trimmed text of the observation textarea, and for
  every \<^verbatim>\<open>tbody tr\<close> of the table the trimmed texts of its \<^verbatim>\<open>td\<close> cells.
\<close>

record document =
  has_table :: bool
  DAT_PROCESSO :: "string option"
  NOM_INTERESSADO :: "string option"
  NOM_REQUERENTE :: "string option"
  DES_ASSUNTO :: "string option"
  compl_assunto :: "string option"
  DES_SITUACAO :: "string option"
  OBS_PROCESSO :: string
  table_rows :: "string list list"

text \<open>What a rejected \<^verbatim>\<open>await\<close> throws: the parts of the error the catch block inspects.\<close>

record js_error =
  isCancel :: bool
  err_name :: string
  err_code :: "string option"
  err_message :: string

datatype 'a awaited = Resolved 'a | RejectedWith js_error

text \<open>
  The behaviour of the origin during one fetch: the result of the session request
  (\<^verbatim>\<open>axios.get\<close>) and the result of the query (\<^verbatim>\<open>axios.post\<close>, its body already parsed).
  The second is only consulted when the first resolves.
\<close>

record response =
  sessionResp :: "unit awaited"
  searchResp :: "document awaited"

text \<open>
  The three shapes \<^verbatim>\<open>fetchProcessData\<close> returns: an array of records, \<^verbatim>\<open>null\<close>, or the
  marker object \<^verbatim>\<open>{ __error: "CONNECTION_ERROR", numeroProcesso }\<close>.
\<close>

datatype fetch_result = Data "process_record list" | Null | ConnectionErrorMarker string

text \<open>\<^verbatim>\<open>x || ""\<close> on a value that is a string or \<^verbatim>\<open>undefined\<close>.\<close>

definition or_empty :: "string option \<Rightarrow> string" where
  "or_empty v = (case v of None \<Rightarrow> [] | Some s \<Rightarrow> s)"

text \<open>\<^verbatim>\<open>cols[k] || ""\<close>: an index past the end reads \<^verbatim>\<open>undefined\<close>.\<close>

definition col :: "string list \<Rightarrow> nat \<Rightarrow> string" where
  "col cols k = (if k < length cols then cols ! k else [])"

definition formatarMovimento :: "process_record \<Rightarrow> string list \<Rightarrow> process_record" where
  "formatarMovimento infoBase cols =
     infoBase @
     [(DataEnvio, col cols 1),
      (SecretariaOrigem, col cols 2),
      (SetorOrigem, col cols 3),
      (DataRecebimento, col cols 4),
      (SecretariaDestino, col cols 5),
      (SetorDestino, col cols 6)]"

definition infoBase :: "string \<Rightarrow> document \<Rightarrow> process_record" where
  "infoBase numeroProcesso d =
     [(NumeroDoProcesso, numeroProcesso),
      (DataAbertura, or_empty (DAT_PROCESSO d)),
      (Interessado, or_empty (NOM_INTERESSADO d)),
      (Requerente, or_empty (NOM_REQUERENTE d)),
      (Assunto, or_empty (DES_ASSUNTO d)),
      (ComplementoDoAssunto, or_empty (compl_assunto d)),
      (Situacao, or_empty (DES_SITUACAO d)),
      (Observacao, OBS_PROCESSO d)]"

text \<open>Lines 27-30: an identifier without \<^verbatim>\<open>"/"\<close> is cut at the offsets 3 and 9.\<close>

definition canonicalize :: "string \<Rightarrow> string" where
  "canonicalize numeroProcesso =
     (if \<not> str_includes numeroProcesso ''/''
      then substring numeroProcesso 0 3 @ ''/'' @ substring numeroProcesso 3 9 @ ''/''
           @ substring_from numeroProcesso 9
      else numeroProcesso)"

text \<open>Lines 59-95: from the parsed document to the returned value.\<close>

definition parse_document :: "string \<Rightarrow> bool \<Rightarrow> document \<Rightarrow> fetch_result" where
  "parse_document numeroProcesso firstOnly d =
     (if \<not> has_table d then Null
      else if table_rows d = [] then Data [infoBase numeroProcesso d]
      else if firstOnly
        then Data [formatarMovimento (infoBase numeroProcesso d) (last (table_rows d))]
        else Data (map (formatarMovimento (infoBase numeroProcesso d)) (table_rows d)))"

text \<open>Lines 96-123: the catch block, as a classifier followed by the value returned.\<close>

datatype failure_class = Cancelled | ConnectionError | Unexpected

definition isCancelled :: "js_error \<Rightarrow> bool" where
  "isCancelled err \<longleftrightarrow>
     isCancel err \<or> err_name err = ''CanceledError'' \<or> err_name err = ''AbortError''"

definition isTimeout :: "js_error \<Rightarrow> bool" where
  "isTimeout err \<longleftrightarrow>
     err_code err = Some ''ECONNABORTED''
     \<or> str_includes (toLowerCase (err_message err)) ''timeout''
     \<or> str_includes (toLowerCase (err_message err)) ''timed out''"

definition isConnection :: "js_error \<Rightarrow> bool" where
  "isConnection err \<longleftrightarrow>
     err_code err = Some ''ECONNREFUSED''
     \<or> err_code err = Some ''ETIMEDOUT''
     \<or> err_code err = Some ''ENOTFOUND''
     \<or> str_includes (toLowerCase (err_message err)) ''connect econnrefused''"

definition classify :: "js_error \<Rightarrow> failure_class" where
  "classify err =
     (if isCancelled err then Cancelled
      else if isTimeout err \<or> isConnection err then ConnectionError
      else Unexpected)"

definition on_failure :: "string \<Rightarrow> js_error \<Rightarrow> fetch_result" where
  "on_failure numeroProcesso err =
     (case classify err of
        Cancelled \<Rightarrow> Null
      | ConnectionError \<Rightarrow> ConnectionErrorMarker numeroProcesso
      | Unexpected \<Rightarrow> Null)"

definition fetchProcessData :: "string \<Rightarrow> bool \<Rightarrow> response \<Rightarrow> fetch_result" where
  "fetchProcessData numeroProcesso firstOnly r =
     (let numero = canonicalize numeroProcesso in
      case sessionResp r of
        RejectedWith err \<Rightarrow> on_failure numero err
      | Resolved _ \<Rightarrow>
          (case searchResp r of
             RejectedWith err \<Rightarrow> on_failure numero err
           | Resolved d \<Rightarrow> parse_document numero firstOnly d))"

section \<open>Batch controller: \<^verbatim>\<open>fetchBatchProcesses\<close>\<close>

text \<open>
  The arguments. \<open>arg_start\<close> and \<open>arg_end\<close> are doubles holding integers.
  \<open>arg_onProgress\<close> and \<open>arg_controller\<close> say whether a callback and an
  \<^verbatim>\<open>AbortController\<close> were passed (both default to \<^verbatim>\<open>null\<close>); \<^verbatim>\<open>signal\<close> is
  \<^verbatim>\<open>controller?.signal || null\<close>, so without a controller nothing is ever observed as
  aborted and \<^verbatim>\<open>controller?.abort()\<close> does nothing.
\<close>

record batch_args =
  arg_prefix :: string
  arg_start :: int
  arg_end :: int
  arg_year :: string
  arg_onProgress :: bool
  arg_firstOnly :: bool
  arg_controller :: bool

definition CONCURRENCY :: nat where
  "CONCURRENCY = 20"

definition MAX_CONSECUTIVE_CONN_ERRORS :: int where
  "MAX_CONSECUTIVE_CONN_ERRORS = 3"

text \<open>Line 164: \<^verbatim>\<open>end - start + 1\<close>, two operations on doubles.\<close>

definition total :: "batch_args \<Rightarrow> int" where
  "total a = round_double (round_double (arg_end a - arg_start a) + 1)"

text \<open>Line 169: the identifier of sequence number \<open>k\<close>.\<close>

definition numero :: "batch_args \<Rightarrow> int \<Rightarrow> string" where
  "numero a k =
     padStart 3 (CHR ''0'') (arg_prefix a) @ ''/'' @ padStart 6 (CHR ''0'') (toString k) @ ''/''
     @ arg_year a"

text \<open>
  JavaScript runs one piece of code at a time. The body of \<^verbatim>\<open>fetchBatchProcesses\<close> and
  the launched tasks only give up control at an \<^verbatim>\<open>await\<close>, and between two network
  events only promise reactions run. So a run is modelled as a sequence of turns: the
  call runs the loop up to its first suspension, and then every event (a fetch comes
  back, or somebody aborts the controller) runs the task concerned to its end, lets its
  promise settle, and runs the body on to its next suspension.
\<close>

text \<open>
  Where the body of \<^verbatim>\<open>fetchBatchProcesses\<close> stands between two turns of the event loop:
  suspended in \<^verbatim>\<open>await Promise.race(active)\<close>, suspended in
  \<^verbatim>\<open>await Promise.allSettled(...)\<close>, returned, or left by the rethrown error.
  \<open>Running\<close> is the state before the first suspension.
\<close>

datatype main_pc =
  Running | AwaitRace | AwaitAllSettled | Returned "process_record list" | Threw string

text \<open>How the promise \<^verbatim>\<open>p\<close> of one launched task settles.\<close>

datatype settlement = Fulfilled | Rejected string

text \<open>
  The variables of one invocation. A task is named by its loop index; \<open>active\<close> lists
  the tasks whose promise is in the \<^verbatim>\<open>active\<close> set, in insertion order, and \<open>aborted\<close>
  is \<^verbatim>\<open>signal.aborted\<close>. Tasks launched for the same index, under a counter that has
  stopped moving, fetch the same identifier and share the name: \<open>active\<close> then lists it
  once for each of them, and a completion settles one of them. The counters \<open>doneCount\<close>, \<open>consecutiveConnErrors\<close> and the loop
  counter \<open>loop_i\<close> are doubles holding integers. The last four fields record what the
  invocation did:
  the identifiers passed to \<^verbatim>\<open>fetchProcessData\<close>, the calls of \<^verbatim>\<open>onProgress\<close>, the tasks
  whose promise was rejected, and the largest size \<^verbatim>\<open>active\<close> has had.
\<close>

record batch_state =
  results :: "process_record list"
  active :: "int list"
  doneCount :: int
  consecutiveConnErrors :: int
  aborted :: bool
  loop_i :: int
  pc :: main_pc
  calls :: "string list"
  progress :: "(int \<times> int \<times> bool) list"
  rejected :: "int list"
  peak :: nat

definition initial :: "batch_args \<Rightarrow> batch_state" where
  "initial a =
     \<lparr>results = [], active = [], doneCount = 0, consecutiveConnErrors = 0, aborted = False,
      loop_i = arg_start a, pc = Running, calls = [], progress = [], rejected = [], peak = 0\<rparr>"

text \<open>Lines 166-204, up to the first \<^verbatim>\<open>await\<close> of the task: the fetch is started.\<close>

definition launch :: "batch_args \<Rightarrow> int \<Rightarrow> batch_state \<Rightarrow> batch_state" where
  "launch a k s =
     (if aborted s then s
      else s\<lparr>calls := calls s @ [numero a k],
             active := active s @ [k],
             peak := max (peak s) (Suc (length (active s)))\<rparr>)"

text \<open>Lines 224-231: wait for what is left, then return \<^verbatim>\<open>results\<close>.\<close>

definition await_all_settled :: "batch_state \<Rightarrow> batch_state" where
  "await_all_settled s =
     (if active s = [] then s\<lparr>pc := Returned (results s)\<rparr> else s\<lparr>pc := AwaitAllSettled\<rparr>)"

text \<open>
  Lines 206-222. \<open>for_loop\<close> starts at the test \<^verbatim>\<open>i <= end\<close>, \<open>while_loop\<close> at the test
  \<^verbatim>\<open>active.size >= CONCURRENCY\<close>; both run until the body suspends or returns. The
  counter is a double, so \<^verbatim>\<open>i++\<close> is \<open>js_increment\<close>: a counter that has reached \<open>2 ^ 53\<close>
  stays there and the same identifier is launched again. The loops end all the same:
  every launch fills the window, and under an abort nothing is launched.
\<close>

function for_loop :: "batch_args \<Rightarrow> batch_state \<Rightarrow> batch_state"
  and while_loop :: "batch_args \<Rightarrow> batch_state \<Rightarrow> batch_state" where
  "for_loop a s =
     (if loop_i s \<le> arg_end a then
        (if aborted s then await_all_settled s
         else while_loop a (launch a (loop_i s) s))
      else await_all_settled s)"
| "while_loop a s =
     (if CONCURRENCY \<le> length (active s) then
        (if aborted s then for_loop a (s\<lparr>loop_i := js_increment (loop_i s)\<rparr>)
         else s\<lparr>pc := AwaitRace\<rparr>)
      else for_loop a (s\<lparr>loop_i := js_increment (loop_i s)\<rparr>))"
  by pat_completeness auto
termination
  by (relation "measure (\<lambda>x. case x of
        Inl (a, s) \<Rightarrow> (if aborted s then 1 else 2 * (CONCURRENCY - length (active s)) + 1)
      | Inr (a, s) \<Rightarrow>
          (if aborted s then 2
           else if CONCURRENCY \<le> length (active s) then 0
           else 2 * (CONCURRENCY - length (active s)) + 2))")
     (auto simp: launch_def)

declare for_loop.simps [simp del] while_loop.simps [simp del]

text \<open>\<^verbatim>\<open>if (onProgress) onProgress(doneCount, total, flag)\<close>.\<close>

definition report :: "batch_args \<Rightarrow> bool \<Rightarrow> batch_state \<Rightarrow> batch_state" where
  "report a flag s =
     (if arg_onProgress a then s\<lparr>progress := progress s @ [(doneCount s, total a, flag)]\<rparr> else s)"

text \<open>\<^verbatim>\<open>controller?.abort()\<close>.\<close>

definition abort :: "batch_args \<Rightarrow> batch_state \<Rightarrow> batch_state" where
  "abort a s = (if arg_controller a then s\<lparr>aborted := True\<rparr> else s)"

text \<open>\<^verbatim>\<open>data && data.__error === "CONNECTION_ERROR"\<close>.\<close>

definition is_connection_error :: "fetch_result \<Rightarrow> bool" where
  "is_connection_error data = (case data of ConnectionErrorMarker _ \<Rightarrow> True | _ \<Rightarrow> False)"

text \<open>What \<^verbatim>\<open>if (data && data.length > 0) results.push(...data)\<close> appends.\<close>

definition pushed :: "fetch_result \<Rightarrow> process_record list" where
  "pushed data = (case data of Data rs \<Rightarrow> if 0 < length rs then rs else [] | _ \<Rightarrow> [])"

text \<open>
  Lines 174-199: the task after its \<^verbatim>\<open>await fetchProcessData(...)\<close> has produced \<open>data\<close>;
  the result is how the task's promise settles, and the variables afterwards.
\<close>

definition on_fetched :: "batch_args \<Rightarrow> fetch_result \<Rightarrow> batch_state \<Rightarrow> settlement \<times> batch_state" where
  "on_fetched a data s =
     (if aborted s then (Fulfilled, s)
      else if is_connection_error data then
        (let s' = report a True
                    (s\<lparr>consecutiveConnErrors := js_increment (consecutiveConnErrors s),
                       doneCount := js_increment (doneCount s)\<rparr>)
         in if MAX_CONSECUTIVE_CONN_ERRORS \<le> consecutiveConnErrors s'
            then (Rejected ''PREFEITURA_OFFLINE'', abort a s')
            else (Fulfilled, s'))
      else
        (Fulfilled,
         report a False
           (s\<lparr>consecutiveConnErrors := 0,
              results := results s @ pushed data,
              doneCount := js_increment (doneCount s)\<rparr>)))"

text \<open>
  The promise of task \<open>k\<close> settles: \<^verbatim>\<open>p.finally(() => active.delete(p))\<close> removes it from
  \<^verbatim>\<open>active\<close>; a rejection is recorded. The promise that \<^verbatim>\<open>p.finally\<close> itself returns
  is awaited by nobody and is left out.
\<close>

definition finally_delete :: "int \<Rightarrow> settlement \<Rightarrow> batch_state \<Rightarrow> batch_state" where
  "finally_delete k out s =
     s\<lparr>active := remove1 k (active s),
       rejected := (case out of Rejected _ \<Rightarrow> rejected s @ [k] | Fulfilled \<Rightarrow> rejected s)\<rparr>"

text \<open>
  Then whoever awaits the promise continues. A pending \<^verbatim>\<open>Promise.race\<close> settles the same
  way: on \<^verbatim>\<open>PREFEITURA_OFFLINE\<close> the catch block rethrows, otherwise the while loop tests
  again. A pending \<^verbatim>\<open>Promise.allSettled\<close> resolves once no task is left, whatever the
  settlements.
\<close>

definition settle :: "batch_args \<Rightarrow> int \<Rightarrow> settlement \<Rightarrow> batch_state \<Rightarrow> batch_state" where
  "settle a k out s =
     (let s' = finally_delete k out s
      in case pc s' of
           AwaitRace \<Rightarrow>
             (case out of
                Rejected msg \<Rightarrow>
                  if msg = ''PREFEITURA_OFFLINE'' then s'\<lparr>pc := Threw msg\<rparr> else while_loop a s'
              | Fulfilled \<Rightarrow> while_loop a s')
         | AwaitAllSettled \<Rightarrow>
             (if active s' = [] then s'\<lparr>pc := Returned (results s')\<rparr> else s')
         | _ \<Rightarrow> s')"

text \<open>
  What the event loop delivers to a running batch: the fetch of task \<open>k\<close> comes back,
  the origin having behaved as \<open>r\<close>, or the request layer calls \<^verbatim>\<open>controller.abort()\<close>.
  An event for a task that is not in flight has no effect.
\<close>

datatype event = Completes int response | AbortRequested

fun step :: "batch_args \<Rightarrow> batch_state \<Rightarrow> event \<Rightarrow> batch_state" where
  "step a s AbortRequested = abort a s"
| "step a s (Completes k r) =
     (if k \<in> set (active s)
      then (case on_fetched a (fetchProcessData (numero a k) (arg_firstOnly a) r) s of
              (out, s') \<Rightarrow> settle a k out s')
      else s)"

definition run :: "batch_args \<Rightarrow> batch_state \<Rightarrow> event list \<Rightarrow> batch_state" where
  "run a s evs = foldl (step a) s evs"

text \<open>The batch from its call until the events \<open>evs\<close> have been delivered.\<close>

definition fetchBatchProcesses :: "batch_args \<Rightarrow> event list \<Rightarrow> batch_state" where
  "fetchBatchProcesses a evs = run a (for_loop a (initial a)) evs"

section \<open>Notions of the specification, and example inputs\<close>

text \<open>
  The canonical textual form of the data model: three segments separated by two slashes,
  the first of width 3 and the second of width 6.
\<close>

definition canonical_form :: "string \<Rightarrow> bool" where
  "canonical_form s \<longleftrightarrow>
     11 \<le> length s \<and> s ! 3 = CHR ''/'' \<and> s ! 10 = CHR ''/''
     \<and> CHR ''/'' \<notin> set (take 3 s) \<and> CHR ''/'' \<notin> set (take 6 (drop 4 s))
     \<and> CHR ''/'' \<notin> set (drop 11 s)"


text \<open>
  A message names a text in any letter case: some stretch of it spells the text, a capital
  letter standing for its small one.
\<close>

definition same_letter :: "char \<Rightarrow> char \<Rightarrow> bool" where
  "same_letter c d \<longleftrightarrow>
     c = d \<or> (65 \<le> (of_char c :: nat) \<and> (of_char c :: nat) \<le> 90
               \<and> (of_char d :: nat) = of_char c + 32)"

fun spells_at :: "string \<Rightarrow> string \<Rightarrow> bool" where
  "spells_at s [] = True"
| "spells_at [] (d # t) = False"
| "spells_at (c # s) (d # t) = (same_letter c d \<and> spells_at s t)"

fun names_text :: "string \<Rightarrow> string \<Rightarrow> bool" where
  "names_text [] t = spells_at [] t"
| "names_text (c # s) t = (spells_at (c # s) t \<or> names_text s t)"

text \<open>
  Errors as axios and Node raise them: a request that ran into its \<^verbatim>\<open>timeout\<close> option, a
  connection attempt the operating system gave up on, a request cancelled through the
  abort signal, and a programming error inside the try block. Then two errors of other
  libraries: a timeout reported in capitals, and a timeout reported under the name
  \<^verbatim>\<open>AbortError\<close>.
\<close>

definition axios_timeout_error :: js_error where
  "axios_timeout_error =
     \<lparr>isCancel = False, err_name = ''AxiosError'', err_code = Some ''ECONNABORTED'',
      err_message = ''timeout of 15000ms exceeded''\<rparr>"

definition connect_timeout_error :: js_error where
  "connect_timeout_error =
     \<lparr>isCancel = False, err_name = ''Error'', err_code = Some ''ETIMEDOUT'',
      err_message = ''connect ETIMEDOUT 10.0.0.1:8004''\<rparr>"

definition canceled_error :: js_error where
  "canceled_error =
     \<lparr>isCancel = True, err_name = ''CanceledError'', err_code = Some ''ERR_CANCELED'',
      err_message = ''canceled''\<rparr>"

definition type_error :: js_error where
  "type_error =
     \<lparr>isCancel = False, err_name = ''TypeError'', err_code = None,
      err_message = ''rawCookies.map is not a function''\<rparr>"

definition capital_timeout_error :: js_error where
  "capital_timeout_error =
     \<lparr>isCancel = False, err_name = ''Error'', err_code = None,
      err_message = ''Request Timed Out''\<rparr>"

definition abort_timeout_error :: js_error where
  "abort_timeout_error =
     \<lparr>isCancel = False, err_name = ''AbortError'', err_code = Some ''ETIMEDOUT'',
      err_message = ''The operation timed out''\<rparr>"


definition no_movement :: document where
  "no_movement =
     \<lparr>has_table = True, DAT_PROCESSO = Some ''01/02/2025'', NOM_INTERESSADO = Some ''A'',
      NOM_REQUERENTE = None, DES_ASSUNTO = None, compl_assunto = None, DES_SITUACAO = None,
      OBS_PROCESSO = [], table_rows = []\<rparr>"

definition two_movements :: document where
  "two_movements =
     \<lparr>has_table = True, DAT_PROCESSO = Some ''01/02/2025'', NOM_INTERESSADO = Some ''A'',
      NOM_REQUERENTE = None, DES_ASSUNTO = None, compl_assunto = None, DES_SITUACAO = None,
      OBS_PROCESSO = [],
      table_rows = [[''1'', ''02/02/2025'', ''SMF''], [''2'', ''03/02/2025'', ''SMS'', ''P'']]\<rparr>"

definition answers :: "document \<Rightarrow> response" where
  "answers d = \<lparr>sessionResp = Resolved (), searchResp = Resolved d\<rparr>"

definition session_fails :: "js_error \<Rightarrow> response" where
  "session_fails e = \<lparr>sessionResp = RejectedWith e, searchResp = RejectedWith e\<rparr>"

definition search_fails :: "js_error \<Rightarrow> response" where
  "search_fails e = \<lparr>sessionResp = Resolved (), searchResp = RejectedWith e\<rparr>"

definition example_args :: "int \<Rightarrow> int \<Rightarrow> bool \<Rightarrow> batch_args" where
  "example_args s e c =
     \<lparr>arg_prefix = ''18'', arg_start = s, arg_end = e, arg_year = ''2025'',
      arg_onProgress = True, arg_firstOnly = True, arg_controller = c\<rparr>"

text \<open>Events of a run: the fetch of task \<open>k\<close> times out, is answered, or is cancelled.\<close>

definition timed_out :: "int \<Rightarrow> event" where
  "timed_out k = Completes k (session_fails axios_timeout_error)"

definition answered :: "int \<Rightarrow> event" where
  "answered k = Completes k (answers two_movements)"

definition cancelled :: "int \<Rightarrow> event" where
  "cancelled k = Completes k (search_fails canceled_error)"

definition example_record :: "string \<Rightarrow> process_record" where
  "example_record n =
     formatarMovimento (infoBase n two_movements) [''2'', ''03/02/2025'', ''SMS'', ''P'']"

text \<open>The records a completion hands to the controller as a non-empty array.\<close>

definition produced :: "batch_args \<Rightarrow> event \<Rightarrow> process_record set" where
  "produced a e =
     (case e of
        Completes k r \<Rightarrow>
          (case fetchProcessData (numero a k) (arg_firstOnly a) r of
             Data rs \<Rightarrow> set rs
           | _ \<Rightarrow> {})
      | AbortRequested \<Rightarrow> {})"

text \<open>Invariants of the controller, between two turns of the event loop.\<close>

definition in_loop :: "main_pc \<Rightarrow> bool" where
  "in_loop p = (case p of AwaitRace \<Rightarrow> True | Threw _ \<Rightarrow> True | _ \<Rightarrow> False)"

definition after_loop :: "main_pc \<Rightarrow> bool" where
  "after_loop p = (case p of AwaitAllSettled \<Rightarrow> True | Returned _ \<Rightarrow> True | _ \<Rightarrow> False)"

definition launched_inv :: "batch_args \<Rightarrow> batch_state \<Rightarrow> bool" where
  "launched_inv a s \<longleftrightarrow>
     arg_start a \<le> loop_i s
     \<and> (in_loop (pc s) \<or> after_loop (pc s))
     \<and> (in_loop (pc s) \<longrightarrow>
          loop_i s \<le> arg_end a \<and> calls s = map (numero a) [arg_start a..loop_i s])
     \<and> (after_loop (pc s) \<longrightarrow>
          calls s = map (numero a) [arg_start a..loop_i s - 1]
          \<and> (loop_i s \<le> arg_end a + 1 \<or> loop_i s = arg_start a)
          \<and> (arg_end a < loop_i s \<or> aborted s))"

definition count_inv :: "batch_args \<Rightarrow> batch_state \<Rightarrow> bool" where
  "count_inv a s \<longleftrightarrow>
     0 \<le> doneCount s
     \<and> (\<not> aborted s \<longrightarrow> doneCount s + int (length (active s)) = int (length (calls s)))
     \<and> (arg_onProgress a \<longrightarrow> map fst (progress s) = [1..doneCount s])
     \<and> (\<forall>e\<in>set (progress s). fst (snd e) = total a)"

definition returned_inv :: "batch_state \<Rightarrow> bool" where
  "returned_inv s \<longleftrightarrow> (\<forall>rs. pc s = Returned rs \<longrightarrow> active s = [] \<and> rs = results s)"

definition circuit_inv :: "batch_args \<Rightarrow> batch_state \<Rightarrow> bool" where
  "circuit_inv a s \<longleftrightarrow>
     pc s \<noteq> Running
     \<and> (rejected s \<noteq> [] \<longrightarrow> aborted s \<or> pc s \<noteq> AwaitRace)
     \<and> (arg_controller a \<longrightarrow> rejected s \<noteq> [] \<longrightarrow> aborted s)
     \<and> (\<forall>m. pc s = Threw m \<longrightarrow> m = ''PREFEITURA_OFFLINE'' \<and> rejected s \<noteq> [])"

text \<open>Bounds between which the counters, doubles all of them, count exactly.\<close>

definition exact_range :: "batch_args \<Rightarrow> bool" where
  "exact_range a \<longleftrightarrow>
     - 9007199254740992 \<le> arg_start a \<and> arg_end a < 9007199254740992
     \<and> arg_end a - arg_start a < 9007199254740992"


section \<open>Numbers\<close>

lemma bit_length_le: "bit_length n \<le> k \<longleftrightarrow> n < 2 ^ k"
proof (induction n arbitrary: k rule: bit_length.induct)
  case (1 n)
  show ?case
  proof (cases "n = 0")
    case True
    then show ?thesis by (subst bit_length.simps) simp
  next
    case False
    show ?thesis
    proof (cases k)
      case 0
      with False show ?thesis by (subst bit_length.simps) simp
    next
      case (Suc k')
      have "n div 2 < 2 ^ k' \<longleftrightarrow> n < 2 ^ Suc k'" by auto
      with False Suc "1.IH"[OF False, of k'] show ?thesis
        by (subst bit_length.simps) simp
    qed
  qed
qed

text \<open>Integers of magnitude up to \<open>2 ^ 53\<close> are doubles.\<close>

lemma round_double_exact: "\<bar>n\<bar> \<le> 9007199254740992 \<Longrightarrow> round_double n = n"
proof (cases "\<bar>n\<bar> = 9007199254740992")
  case True
  have b: "bit_length 9007199254740992 = 54"
    by (simp add: bit_length.simps)
  from True have "nat \<bar>n\<bar> = 9007199254740992" by simp
  then have "round_double n = sgn n * 9007199254740992"
    unfolding round_double_def Let_def by (simp add: b)
  with True show ?thesis by (cases "n < 0") (simp_all add: sgn_if)
next
  case False
  assume "\<bar>n\<bar> \<le> 9007199254740992"
  with False have "nat \<bar>n\<bar> < 2 ^ 53" by simp
  then have "bit_length (nat \<bar>n\<bar>) \<le> 53" by (simp only: bit_length_le)
  then have "round_double n = sgn n * int (nat \<bar>n\<bar>)"
    unfolding round_double_def Let_def by simp
  then show ?thesis by (simp add: sgn_if)
qed

lemma js_increment_exact:
  "- 9007199254740993 \<le> i \<Longrightarrow> i < 9007199254740992 \<Longrightarrow> js_increment i = i + 1"
  unfolding js_increment_def by (rule round_double_exact) simp

text \<open>At \<open>2 ^ 53\<close> the counter stalls; below \<open>- 2 ^ 53\<close> it skips.\<close>

lemma js_increment_stalls: "js_increment 9007199254740992 = 9007199254740992"
proof -
  have b: "bit_length 9007199254740993 = 54" by (simp add: bit_length.simps)
  show ?thesis unfolding js_increment_def round_double_def Let_def by (simp add: b)
qed

lemma js_increment_skips: "js_increment (- 9007199254740994) = - 9007199254740992"
proof -
  have b: "bit_length 9007199254740993 = 54" by (simp add: bit_length.simps)
  show ?thesis unfolding js_increment_def round_double_def Let_def by (simp add: b)
qed

lemma round_double_nonneg: "0 \<le> n \<Longrightarrow> 0 \<le> round_double n"
  unfolding round_double_def Let_def by (simp add: sgn_if)

lemma total_exact:
  assumes "arg_start a \<le> arg_end a" and "arg_end a - arg_start a < 9007199254740992"
  shows "total a = arg_end a - arg_start a + 1"
  using assms by (simp add: total_def round_double_exact)

section \<open>The single-item fetch\<close>

lemma str_includes_single: "str_includes s [c] = (c \<in> set s)"
  by (induction s) auto

lemma fetch_failure:
  assumes "sessionResp r = RejectedWith e
           \<or> (sessionResp r = Resolved u \<and> searchResp r = RejectedWith e)"
  shows "fetchProcessData n f r = on_failure (canonicalize n) e"
  using assms by (auto simp: fetchProcessData_def)

lemma fetch_answers: "fetchProcessData n f (answers d) = parse_document (canonicalize n) f d"
  by (simp add: fetchProcessData_def answers_def)

lemma classify_examples:
  "classify axios_timeout_error = ConnectionError"
  "classify connect_timeout_error = ConnectionError"
  "classify canceled_error = Cancelled"
  "classify type_error = Unexpected"
  by code_simp+

text \<open>
  C7. Let \<open>header\<close> be the record of the header attributes (the canonical identifier and the
  seven values read from the document, an absent one as the empty string) and let
  \<open>movement c\<close> be the six movement fields taken from the cells 1 to 6 of a row \<open>c\<close>, a
  missing cell as the empty string. When the results table is present and has no data
  rows the fetch returns exactly the one record \<open>header\<close>; when it has rows,
  \<open>firstOnly = true\<close> returns the single record made of \<open>header\<close> and the movement of the
  last row in table order, and \<open>firstOnly = false\<close> returns one such record per row, in
  table order. With \<open>firstOnly = true\<close> no response of the origin yields more than one
  record.
\<close>

theorem fetch_records_per_row:
  assumes "sessionResp r = Resolved u" and "searchResp r = Resolved d" and "has_table d"
    and "header =
      [(NumeroDoProcesso, canonicalize n),
       (DataAbertura, case DAT_PROCESSO d of None \<Rightarrow> [] | Some v \<Rightarrow> v),
       (Interessado, case NOM_INTERESSADO d of None \<Rightarrow> [] | Some v \<Rightarrow> v),
       (Requerente, case NOM_REQUERENTE d of None \<Rightarrow> [] | Some v \<Rightarrow> v),
       (Assunto, case DES_ASSUNTO d of None \<Rightarrow> [] | Some v \<Rightarrow> v),
       (ComplementoDoAssunto, case compl_assunto d of None \<Rightarrow> [] | Some v \<Rightarrow> v),
       (Situacao, case DES_SITUACAO d of None \<Rightarrow> [] | Some v \<Rightarrow> v),
       (Observacao, OBS_PROCESSO d)]"
    and "movement = (\<lambda>c.
      [(DataEnvio, if 1 < length c then c ! 1 else []),
       (SecretariaOrigem, if 2 < length c then c ! 2 else []),
       (SetorOrigem, if 3 < length c then c ! 3 else []),
       (DataRecebimento, if 4 < length c then c ! 4 else []),
       (SecretariaDestino, if 5 < length c then c ! 5 else []),
       (SetorDestino, if 6 < length c then c ! 6 else [])])"
  shows "(table_rows d = [] \<longrightarrow> fetchProcessData n f r = Data [header])
       \<and> (table_rows d \<noteq> [] \<longrightarrow>
            fetchProcessData n True r = Data [header @ movement (last (table_rows d))]
          \<and> fetchProcessData n False r = Data (map (\<lambda>c. header @ movement c) (table_rows d)))
       \<and> (\<forall>r'. case fetchProcessData n True r' of Data rs \<Rightarrow> length rs = 1 | _ \<Rightarrow> True)"
proof -
  have h: "infoBase (canonicalize n) d = header"
    unfolding assms(4) by (simp add: infoBase_def or_empty_def)
  have m: "formatarMovimento header c = header @ movement c" for c
    unfolding assms(5) by (simp add: formatarMovimento_def col_def)
  have p: "fetchProcessData n g r = parse_document (canonicalize n) g d" for g
    using assms(1,2) by (simp add: fetchProcessData_def)
  have one: "case fetchProcessData n True r' of Data rs \<Rightarrow> length rs = 1 | _ \<Rightarrow> True" for r'
    by (auto simp: fetchProcessData_def parse_document_def on_failure_def Let_def
          split: awaited.splits failure_class.splits)
  from assms(3) one show ?thesis
    unfolding p by (simp add: parse_document_def h m)
qed

theorem fetch_records_per_row_witness:
  "fetchProcessData ''0180001232025'' False (answers no_movement)
     = Data [[(NumeroDoProcesso, ''018/000123/2025''), (DataAbertura, ''01/02/2025''),
              (Interessado, ''A''), (Requerente, []), (Assunto, []),
              (ComplementoDoAssunto, []), (Situacao, []), (Observacao, [])]]
   \<and> fetchProcessData ''0180001232025'' True (answers two_movements)
     = Data [[(NumeroDoProcesso, ''018/000123/2025''), (DataAbertura, ''01/02/2025''),
              (Interessado, ''A''), (Requerente, []), (Assunto, []),
              (ComplementoDoAssunto, []), (Situacao, []), (Observacao, []),
              (DataEnvio, ''03/02/2025''), (SecretariaOrigem, ''SMS''), (SetorOrigem, ''P''),
              (DataRecebimento, []), (SecretariaDestino, []), (SetorDestino, [])]]
   \<and> fetchProcessData ''0180001232025'' False (answers two_movements)
     = Data [[(NumeroDoProcesso, ''018/000123/2025''), (DataAbertura, ''01/02/2025''),
              (Interessado, ''A''), (Requerente, []), (Assunto, []),
              (ComplementoDoAssunto, []), (Situacao, []), (Observacao, []),
              (DataEnvio, ''02/02/2025''), (SecretariaOrigem, ''SMF''), (SetorOrigem, []),
              (DataRecebimento, []), (SecretariaDestino, []), (SetorDestino, [])],
             [(NumeroDoProcesso, ''018/000123/2025''), (DataAbertura, ''01/02/2025''),
              (Interessado, ''A''), (Requerente, []), (Assunto, []),
              (ComplementoDoAssunto, []), (Situacao, []), (Observacao, []),
              (DataEnvio, ''03/02/2025''), (SecretariaOrigem, ''SMS''), (SetorOrigem, ''P''),
              (DataRecebimento, []), (SecretariaDestino, []), (SetorDestino, [])]]"
proof -
  have c: "canonicalize ''0180001232025'' = ''018/000123/2025''"
    by (simp add: canonicalize_def substring_def substring_from_def)
  have h0: "sessionResp (answers no_movement) = Resolved ()"
    "searchResp (answers no_movement) = Resolved no_movement" "has_table no_movement"
    by (simp_all add: answers_def no_movement_def)
  have h2: "sessionResp (answers two_movements) = Resolved ()"
    "searchResp (answers two_movements) = Resolved two_movements" "has_table two_movements"
    by (simp_all add: answers_def two_movements_def)
  show ?thesis
    using fetch_records_per_row [OF h0 refl refl, of "''0180001232025''" False]
      fetch_records_per_row [OF h2 refl refl, of "''0180001232025''" False]
    by (simp add: c no_movement_def two_movements_def)
qed

lemma same_letter_lower:
  assumes "same_letter c d" and "\<not> (65 \<le> (of_char d :: nat) \<and> (of_char d :: nat) \<le> 90)"
  shows "lower_char c = d"
proof (cases "c = d")
  case True
  with assms(2) show ?thesis by (auto simp: lower_char_def Let_def)
next
  case False
  with assms(1) have u: "65 \<le> (of_char c :: nat)" "(of_char c :: nat) \<le> 90"
    and d: "(of_char d :: nat) = of_char c + 32"
    by (simp_all add: same_letter_def)
  have "char_of (of_char c + 32 :: nat) = char_of (of_char d :: nat)" by (simp only: d)
  with u show ?thesis by (simp add: lower_char_def Let_def)
qed

lemma spells_at_lower:
  "spells_at s t \<Longrightarrow> \<forall>d\<in>set t. \<not> (65 \<le> (of_char d :: nat) \<and> (of_char d :: nat) \<le> 90)
     \<Longrightarrow> take (length t) (toLowerCase s) = t"
  by (induction s t rule: spells_at.induct) (simp_all add: toLowerCase_def same_letter_lower)

lemma names_text_includes:
  "names_text s t \<Longrightarrow> \<forall>d\<in>set t. \<not> (65 \<le> (of_char d :: nat) \<and> (of_char d :: nat) \<le> 90)
     \<Longrightarrow> str_includes (toLowerCase s) t"
proof (induction s)
  case Nil
  then show ?case by (cases t) (simp_all add: toLowerCase_def)
next
  case (Cons c s)
  from Cons.prems(1) have "spells_at (c # s) t \<or> names_text s t" by simp
  then show ?case
  proof
    assume "spells_at (c # s) t"
    from spells_at_lower[OF this Cons.prems(2)] show ?thesis
      by (simp add: toLowerCase_def)
  next
    assume "names_text s t"
    from Cons.IH[OF this Cons.prems(2)] show ?thesis by (simp add: toLowerCase_def)
  qed
qed

lemma names_timeout:
  "names_text m ''timeout'' \<Longrightarrow> str_includes (toLowerCase m) ''timeout''"
  "names_text m ''timed out'' \<Longrightarrow> str_includes (toLowerCase m) ''timed out''"
  by (erule names_text_includes, simp)+

text \<open>
  C9, as the code has it. The catch block tests for a cancellation first
  (\<^verbatim>\<open>axios.isCancel\<close>, or the name \<^verbatim>\<open>CanceledError\<close> or \<^verbatim>\<open>AbortError\<close>): such a failure of the
  session request or of the query is classified as cancelled and returns \<^verbatim>\<open>null\<close>, never
  the marker, whatever else the error carries. A failure that is not a cancellation and
  is a timeout (axios's \<^verbatim>\<open>ECONNABORTED\<close>, the system's \<^verbatim>\<open>ETIMEDOUT\<close>, or a message naming
  \<^verbatim>\<open>timeout\<close> or \<^verbatim>\<open>timed out\<close> in any letter case) is classified as a connection error and
  returned as the marker, not as \<^verbatim>\<open>null\<close>.
\<close>

theorem timeout_is_connection_error:
  assumes "sessionResp r = RejectedWith e
           \<or> (sessionResp r = Resolved u \<and> searchResp r = RejectedWith e)"
  shows "(\<not> isCancel e \<and> err_name e \<noteq> ''CanceledError'' \<and> err_name e \<noteq> ''AbortError''
          \<and> (err_code e = Some ''ECONNABORTED'' \<or> err_code e = Some ''ETIMEDOUT''
             \<or> names_text (err_message e) ''timeout''
             \<or> names_text (err_message e) ''timed out'') \<longrightarrow>
            classify e = ConnectionError
            \<and> fetchProcessData n f r = ConnectionErrorMarker (canonicalize n))
       \<and> (isCancel e \<or> err_name e = ''CanceledError'' \<or> err_name e = ''AbortError'' \<longrightarrow>
            classify e = Cancelled \<and> fetchProcessData n f r = Null)"
  unfolding fetch_failure [OF assms]
  using names_timeout[of "err_message e"]
  by (auto simp: on_failure_def classify_def isCancelled_def isTimeout_def isConnection_def)

theorem timeout_is_connection_error_witness:
  "fetchProcessData ''0180001232025'' False (session_fails axios_timeout_error)
     = ConnectionErrorMarker ''018/000123/2025''
   \<and> fetchProcessData ''0180001232025'' False (search_fails connect_timeout_error)
     = ConnectionErrorMarker ''018/000123/2025''
   \<and> fetchProcessData ''0180001232025'' False (search_fails capital_timeout_error)
     = ConnectionErrorMarker ''018/000123/2025''
   \<and> fetchProcessData ''0180001232025'' False (search_fails canceled_error) = Null"
proof -
  have c: "canonicalize ''0180001232025'' = ''018/000123/2025''"
    by (simp add: canonicalize_def substring_def substring_from_def)
  have h1: "sessionResp (session_fails axios_timeout_error) = RejectedWith axios_timeout_error
            \<or> (sessionResp (session_fails axios_timeout_error) = Resolved ()
                \<and> searchResp (session_fails axios_timeout_error) = RejectedWith axios_timeout_error)"
    by (simp add: session_fails_def)
  have h2: "sessionResp (search_fails e) = RejectedWith e
            \<or> (sessionResp (search_fails e) = Resolved ()
                \<and> searchResp (search_fails e) = RejectedWith e)" for e
    by (simp add: search_fails_def)
  have t1: "\<not> isCancel axios_timeout_error" "err_name axios_timeout_error = ''AxiosError''"
    "err_code axios_timeout_error = Some ''ECONNABORTED''"
    by (simp_all add: axios_timeout_error_def)
  have t2: "\<not> isCancel connect_timeout_error" "err_name connect_timeout_error = ''Error''"
    "err_code connect_timeout_error = Some ''ETIMEDOUT''"
    by (simp_all add: connect_timeout_error_def)
  have t3: "\<not> isCancel capital_timeout_error" "err_name capital_timeout_error = ''Error''"
    "names_text (err_message capital_timeout_error) ''timed out''"
    by (simp_all add: capital_timeout_error_def same_letter_def)
  have t4: "isCancel canceled_error"
    by (simp add: canceled_error_def)
  show ?thesis
    using timeout_is_connection_error [OF h1, of "''0180001232025''" False]
      timeout_is_connection_error [OF h2, of connect_timeout_error "''0180001232025''" False]
      timeout_is_connection_error [OF h2, of capital_timeout_error "''0180001232025''" False]
      timeout_is_connection_error [OF h2, of canceled_error "''0180001232025''" False]
    by (simp add: c t1 t2 t3 t4)
qed

text \<open>
  C9, as the claim has it, fails: a timeout that comes under the name \<^verbatim>\<open>AbortError\<close> is
  taken for a cancellation, because that test comes first, and the fetch returns \<^verbatim>\<open>null\<close>
  instead of the marker.
\<close>

theorem cancellation_test_comes_first:
  "err_code abort_timeout_error = Some ''ETIMEDOUT''
   \<and> names_text (err_message abort_timeout_error) ''timed out''
   \<and> classify abort_timeout_error = Cancelled
   \<and> fetchProcessData ''0180001232025'' False (session_fails abort_timeout_error) = Null
   \<and> fetchProcessData ''0180001232025'' False (search_fails abort_timeout_error) = Null"
  by (simp add: abort_timeout_error_def same_letter_def classify_def isCancelled_def
        fetchProcessData_def session_fails_def search_fails_def on_failure_def)




section \<open>Identifiers\<close>

lemma replicate_numeral: "replicate (numeral k) x = x # replicate (pred_numeral k) x"
  by (simp add: numeral_eq_Suc)

lemma canonicalize_example: "canonicalize ''0180001232025'' = ''018/000123/2025''"
  by (simp add: canonicalize_def substring_def substring_from_def)

lemma canonicalize_slices:
  assumes "length p = 3" and "length q = 6" and "CHR ''/'' \<notin> set (p @ q @ y)"
  shows "canonicalize (p @ q @ y) = p @ ''/'' @ q @ ''/'' @ y"
  using assms by (simp add: canonicalize_def str_includes_single substring_def substring_from_def)

lemma canonical_form_segments:
  assumes "length p = 3" and "length q = 6" and "CHR ''/'' \<notin> set (p @ q @ y)"
  shows "canonical_form (p @ ''/'' @ q @ ''/'' @ y)"
  using assms by (simp add: canonical_form_def nth_append)

lemma digits_length: "0 < m \<Longrightarrow> n < 10 ^ m \<Longrightarrow> length (digits n) \<le> m"
proof (induction n arbitrary: m rule: digits.induct)
  case (1 n)
  show ?case
  proof (cases "n < 10")
    case True
    with 1 show ?thesis by (subst digits.simps) simp
  next
    case False
    with "1.prems" have "1 < m" by (cases "m = 1") auto
    then obtain m' where m': "m = Suc m'" "0 < m'" by (cases m) auto
    from "1.prems" m' have "n div 10 < 10 ^ m'" by (simp add: less_mult_imp_div_less)
    with 1(1)[OF False m'(2)] have "length (digits (n div 10)) \<le> m'" by simp
    with False m' show ?thesis by (subst digits.simps) simp
  qed
qed

lemma digit_not_slash: "d < 10 \<Longrightarrow> digit_char d \<noteq> CHR ''/''"
proof -
  assume "d < 10"
  then have "d \<in> {0, 1, 2, 3, 4, 5, 6, 7, 8, 9}" by auto
  then show ?thesis by (auto simp: digit_char_def)
qed

lemma digits_no_slash: "CHR ''/'' \<notin> set (digits n)"
proof (induction n rule: digits.induct)
  case (1 n)
  show ?case
  proof (cases "n < 10")
    case True
    then show ?thesis using digit_not_slash[of n] by (subst digits.simps) auto
  next
    case False
    then show ?thesis using 1 digit_not_slash[of "n mod 10"] by (subst digits.simps) auto
  qed
qed

lemma numero_form:
  assumes "length (arg_prefix a) \<le> 3" and "0 \<le> k" and "k < 1000000"
    and "CHR ''/'' \<notin> set (arg_prefix a)" and "CHR ''/'' \<notin> set (arg_year a)"
  shows "length (padStart 3 (CHR ''0'') (arg_prefix a)) = 3"
    and "length (padStart 6 (CHR ''0'') (toString k)) = 6"
    and "canonical_form (numero a k)"
    and "canonicalize (numero a k) = numero a k"
proof -
  let ?p = "padStart 3 (CHR ''0'') (arg_prefix a)"
  let ?q = "padStart 6 (CHR ''0'') (toString k)"
  have "nat k \<le> 9007199254740992" using assms(3) by simp
  then have ts: "toString k = digits (nat k)" using assms(2) by (simp add: toString_def to_decimal_def)
  have "nat k < 10 ^ 6" using assms(2,3) by simp
  then have len: "length (toString k) \<le> 6" unfolding ts by (intro digits_length) simp_all
  have n: "numero a k = ?p @ ''/'' @ ?q @ ''/'' @ arg_year a" by (simp add: numero_def)
  show lp: "length ?p = 3" using assms(1) by (simp add: padStart_def)
  show lq: "length ?q = 6" using len by (simp add: padStart_def)
  have ns: "CHR ''/'' \<notin> set (?p @ ?q @ arg_year a)"
    using assms(4,5) digits_no_slash[of "nat k"] by (auto simp: padStart_def ts)
  show "canonical_form (numero a k)"
    unfolding n using canonical_form_segments[OF lp lq ns] .
  show "canonicalize (numero a k) = numero a k"
    by (simp add: canonicalize_def str_includes_single n)
qed

text \<open>
  C6, as the code has it. A string without \<^verbatim>\<open>"/"\<close> that is a 3-character prefix followed by
  a 6-character sequence and a year is cut into exactly these three segments, and the
  result has the canonical form; \<^verbatim>\<open>"0180001232025"\<close> becomes \<^verbatim>\<open>"018/000123/2025"\<close>. Slicing
  pads nothing. The batch controller pads the prefix to 3 and the sequence number to 6
  characters with zeros and checks nothing; so for a prefix of at most 3 characters, a
  sequence number from 0 to 999999, and a prefix and a year without \<^verbatim>\<open>"/"\<close>, its identifier
  has the canonical form and is left as it is by the fetch.
\<close>

theorem canonicalize_fixed_width:
  "(length p = 3 \<and> length q = 6 \<and> CHR ''/'' \<notin> set (p @ q @ y) \<longrightarrow>
      canonicalize (p @ q @ y) = p @ ''/'' @ q @ ''/'' @ y
      \<and> canonical_form (canonicalize (p @ q @ y)))
   \<and> canonicalize ''0180001232025'' = ''018/000123/2025''
   \<and> (length (arg_prefix a) \<le> 3 \<and> 0 \<le> k \<and> k < 1000000
      \<and> CHR ''/'' \<notin> set (arg_prefix a) \<and> CHR ''/'' \<notin> set (arg_year a) \<longrightarrow>
      numero a k
        = (replicate (3 - length (arg_prefix a)) (CHR ''0'') @ arg_prefix a) @ ''/''
          @ (replicate (6 - length (toString k)) (CHR ''0'') @ toString k) @ ''/'' @ arg_year a
      \<and> length (replicate (3 - length (arg_prefix a)) (CHR ''0'') @ arg_prefix a) = 3
      \<and> length (replicate (6 - length (toString k)) (CHR ''0'') @ toString k) = 6
      \<and> canonical_form (numero a k)
      \<and> canonicalize (numero a k) = numero a k)"
proof (intro conjI impI)
  assume h: "length p = 3 \<and> length q = 6 \<and> CHR ''/'' \<notin> set (p @ q @ y)"
  then show c: "canonicalize (p @ q @ y) = p @ ''/'' @ q @ ''/'' @ y"
    by (intro canonicalize_slices) simp_all
  from h show "canonical_form (canonicalize (p @ q @ y))"
    unfolding c by (intro canonical_form_segments) simp_all
next
  show "canonicalize ''0180001232025'' = ''018/000123/2025''"
    by (rule canonicalize_example)
next
  assume h: "length (arg_prefix a) \<le> 3 \<and> 0 \<le> k \<and> k < 1000000
      \<and> CHR ''/'' \<notin> set (arg_prefix a) \<and> CHR ''/'' \<notin> set (arg_year a)"
  then have "length (arg_prefix a) \<le> 3" and "0 \<le> k" and "k < 1000000"
    and "CHR ''/'' \<notin> set (arg_prefix a)" and "CHR ''/'' \<notin> set (arg_year a)"
    by simp_all
  note nf = numero_form [OF this]
  show "numero a k
        = (replicate (3 - length (arg_prefix a)) (CHR ''0'') @ arg_prefix a) @ ''/''
          @ (replicate (6 - length (toString k)) (CHR ''0'') @ toString k) @ ''/'' @ arg_year a"
    by (simp add: numero_def padStart_def)
  show "length (replicate (3 - length (arg_prefix a)) (CHR ''0'') @ arg_prefix a) = 3"
    using nf(1) by (simp add: padStart_def)
  show "length (replicate (6 - length (toString k)) (CHR ''0'') @ toString k) = 6"
    using nf(2) by (simp add: padStart_def)
  show "canonical_form (numero a k)" by (rule nf(3))
  show "canonicalize (numero a k) = numero a k" by (rule nf(4))
qed

theorem canonicalize_fixed_width_witness:
  "canonicalize (''018'' @ ''000123'' @ ''2025'') = ''018'' @ ''/'' @ ''000123'' @ ''/'' @ ''2025''
   \<and> canonical_form (canonicalize (''018'' @ ''000123'' @ ''2025''))
   \<and> numero (example_args 1 1000 True) 123 = ''018/000123/2025''
   \<and> canonical_form (numero (example_args 1 1000 True) 123)"
proof -
  have h1: "length ''018'' = 3 \<and> length ''000123'' = 6
            \<and> CHR ''/'' \<notin> set (''018'' @ ''000123'' @ ''2025'')"
    by simp
  have h2: "length (arg_prefix (example_args 1 1000 True)) \<le> 3 \<and> (0::int) \<le> 123
            \<and> (123::int) < 1000000
            \<and> CHR ''/'' \<notin> set (arg_prefix (example_args 1 1000 True))
            \<and> CHR ''/'' \<notin> set (arg_year (example_args 1 1000 True))"
    by (simp add: example_args_def)
  have n: "numero (example_args 1 1000 True) 123 = ''018/000123/2025''"
    by (simp add: numero_def example_args_def padStart_def toString_def to_decimal_def digits.simps
        digit_char_def replicate_numeral)
  from canonicalize_fixed_width [of "''018''" "''000123''" "''2025''" "example_args 1 1000 True" 123]
    h1 h2
  have "canonicalize (''018'' @ ''000123'' @ ''2025'') = ''018'' @ ''/'' @ ''000123'' @ ''/'' @ ''2025''"
    and "canonical_form (canonicalize (''018'' @ ''000123'' @ ''2025''))"
    and "canonical_form (numero (example_args 1 1000 True) 123)"
    by blast+
  with n show ?thesis by blast
qed

text \<open>
  C6, as the claim has it, fails: slicing a separator-free string shorter than 9
  characters leaves a sequence segment narrower than 6; a sequence number of seven digits
  makes the controller's identifier wider than the canonical form; and a prefix with a
  \<^verbatim>\<open>"/"\<close> in it gives the identifier a fourth segment.
\<close>

theorem canonical_form_counterexample:
  "CHR ''/'' \<notin> set ''01812325''
   \<and> canonicalize ''01812325'' = ''018/12325/''
   \<and> \<not> canonical_form (canonicalize ''01812325'')
   \<and> numero (example_args 1 1000000 True) 1000000 = ''018/1000000/2025''
   \<and> \<not> canonical_form (numero (example_args 1 1000000 True) 1000000)
   \<and> length (arg_prefix ((example_args 1 1 True)\<lparr>arg_prefix := ''1/2''\<rparr>)) \<le> 3
   \<and> numero ((example_args 1 1 True)\<lparr>arg_prefix := ''1/2''\<rparr>) 1 = ''1/2/000001/2025''
   \<and> \<not> canonical_form (numero ((example_args 1 1 True)\<lparr>arg_prefix := ''1/2''\<rparr>) 1)"
  by (simp add: canonicalize_def substring_def substring_from_def canonical_form_def numero_def
       example_args_def padStart_def toString_def to_decimal_def digits.simps digit_char_def replicate_numeral)

section \<open>The controller: one turn of the event loop\<close>

text \<open>The loops launch fetches and move the place of suspension; they touch nothing else.\<close>

lemma loops_frame:
  "results (for_loop a s) = results s \<and> doneCount (for_loop a s) = doneCount s
   \<and> consecutiveConnErrors (for_loop a s) = consecutiveConnErrors s
   \<and> aborted (for_loop a s) = aborted s \<and> progress (for_loop a s) = progress s
   \<and> rejected (for_loop a s) = rejected s"
  "results (while_loop a s) = results s \<and> doneCount (while_loop a s) = doneCount s
   \<and> consecutiveConnErrors (while_loop a s) = consecutiveConnErrors s
   \<and> aborted (while_loop a s) = aborted s \<and> progress (while_loop a s) = progress s
   \<and> rejected (while_loop a s) = rejected s"
proof (induction a s and a s rule: for_loop_while_loop.induct)
  case (1 a s)
  then show ?case
    by (subst (1 2 3 4 5 6) for_loop.simps) (simp add: launch_def await_all_settled_def)
next
  case (2 a s)
  then show ?case
    by (subst (1 2 3 4 5 6) while_loop.simps) simp
qed

lemma loops_pc:
  "pc (for_loop a s) \<noteq> Running \<and> (\<forall>m. pc (for_loop a s) \<noteq> Threw m)"
  "pc (while_loop a s) \<noteq> Running \<and> (\<forall>m. pc (while_loop a s) \<noteq> Threw m)"
proof (induction a s and a s rule: for_loop_while_loop.induct)
  case (1 a s)
  then show ?case by (subst (1 2) for_loop.simps) (simp add: await_all_settled_def)
next
  case (2 a s)
  then show ?case by (subst (1 2) while_loop.simps) simp
qed

lemma loops_aborted:
  "aborted s \<Longrightarrow> calls (for_loop a s) = calls s \<and> active (for_loop a s) = active s"
  "aborted s \<Longrightarrow> calls (while_loop a s) = calls s \<and> active (while_loop a s) = active s"
proof (induction a s and a s rule: for_loop_while_loop.induct)
  case (1 a s)
  then show ?case by (subst (1 2) for_loop.simps) (simp add: await_all_settled_def)
next
  case (2 a s)
  then show ?case by (subst (1 2) while_loop.simps) simp
qed

lemma on_fetched_frame:
  assumes "on_fetched a d s = (out, s')"
  shows "active s' = active s" and "pc s' = pc s" and "loop_i s' = loop_i s"
    and "calls s' = calls s" and "peak s' = peak s" and "aborted s \<Longrightarrow> s' = s"
    and "aborted s \<Longrightarrow> out = Fulfilled"
    and "aborted s \<Longrightarrow> aborted s'" and "rejected s' = rejected s"
    and "out = Fulfilled \<or> out = Rejected ''PREFEITURA_OFFLINE''"
    and "out \<noteq> Fulfilled \<Longrightarrow> arg_controller a \<Longrightarrow> aborted s'"
    and "aborted s' \<Longrightarrow> aborted s \<or> out \<noteq> Fulfilled"
  using assms
  by (auto simp: on_fetched_def report_def abort_def Let_def split: if_splits)

lemma finally_delete_simps [simp]:
  "active (finally_delete k out s) = remove1 k (active s)"
  "rejected (finally_delete k out s)
     = (case out of Rejected _ \<Rightarrow> rejected s @ [k] | Fulfilled \<Rightarrow> rejected s)"
  "results (finally_delete k out s) = results s"
  "doneCount (finally_delete k out s) = doneCount s"
  "consecutiveConnErrors (finally_delete k out s) = consecutiveConnErrors s"
  "aborted (finally_delete k out s) = aborted s"
  "loop_i (finally_delete k out s) = loop_i s"
  "pc (finally_delete k out s) = pc s"
  "calls (finally_delete k out s) = calls s"
  "progress (finally_delete k out s) = progress s"
  "peak (finally_delete k out s) = peak s"
  by (simp_all add: finally_delete_def)

text \<open>How one completion acts, by the place where the body is suspended.\<close>

lemma step_Completes:
  assumes "k \<in> set (active s)"
    and "on_fetched a (fetchProcessData (numero a k) (arg_firstOnly a) r) s = (out, s1)"
  shows "step a s (Completes k r) =
     (case pc s of
        AwaitRace \<Rightarrow>
          if out = Fulfilled then while_loop a (finally_delete k out s1)
          else (finally_delete k out s1)\<lparr>pc := Threw ''PREFEITURA_OFFLINE''\<rparr>
      | AwaitAllSettled \<Rightarrow>
          if remove1 k (active s) = []
          then (finally_delete k out s1)\<lparr>pc := Returned (results s1)\<rparr>
          else finally_delete k out s1
      | _ \<Rightarrow> finally_delete k out s1)"
  using assms on_fetched_frame(1,2,10)[OF assms(2)]
  by (auto simp: settle_def Let_def split: main_pc.splits settlement.splits)

lemma run_Nil [simp]: "run a s [] = s"
  by (simp add: run_def)

lemma run_Cons [simp]: "run a s (e # evs) = run a (step a s e) evs"
  by (simp add: run_def)

lemma run_append: "run a s (evs @ evs') = run a (run a s evs) evs'"
  by (simp add: run_def)

section \<open>Runs on example inputs\<close>

lemmas batch_eval =
  fetchBatchProcesses_def run_def initial_def for_loop.simps while_loop.simps launch_def
  await_all_settled_def settle_def finally_delete_def on_fetched_def report_def abort_def
  total_def CONCURRENCY_def MAX_CONSECUTIVE_CONN_ERRORS_def is_connection_error_def pushed_def
  example_args_def timed_out_def answered_def cancelled_def
  js_increment_exact round_double_exact

lemma fetch_timed_out:
  "fetchProcessData n f (session_fails axios_timeout_error) = ConnectionErrorMarker (canonicalize n)"
  by (simp add: fetchProcessData_def session_fails_def on_failure_def classify_examples)

lemma fetch_answered:
  "fetchProcessData n True (answers two_movements) = Data [example_record (canonicalize n)]"
  by (simp add: fetch_answers parse_document_def two_movements_def example_record_def)

lemma fetch_cancelled: "fetchProcessData n f (search_fails canceled_error) = Null"
  by (simp add: fetchProcessData_def search_fails_def on_failure_def classify_examples)

lemmas numero_eval =
  numero_def padStart_def toString_def to_decimal_def digits.simps digit_char_def replicate_numeral
  canonicalize_def

lemma run_three_timeouts:
  "fetchBatchProcesses (example_args 1 3 True) [timed_out 1, timed_out 2, timed_out 3]
   = \<lparr>results = [], active = [], doneCount = 3, consecutiveConnErrors = 3, aborted = True,
      loop_i = 4, pc = Returned [],
      calls = [''018/000001/2025'', ''018/000002/2025'', ''018/000003/2025''],
      progress = [(1, 3, True), (2, 3, True), (3, 3, True)], rejected = [3], peak = 3\<rparr>"
  by (simp add: batch_eval fetch_timed_out fetch_answered fetch_cancelled numero_eval)

lemma run_reset:
  "fetchBatchProcesses (example_args 1 4 True) [timed_out 1, timed_out 2, answered 3, timed_out 4]
   = \<lparr>results = [example_record ''018/000003/2025''], active = [], doneCount = 4,
      consecutiveConnErrors = 1, aborted = False, loop_i = 5,
      pc = Returned [example_record ''018/000003/2025''],
      calls = [''018/000001/2025'', ''018/000002/2025'', ''018/000003/2025'', ''018/000004/2025''],
      progress = [(1, 4, True), (2, 4, True), (3, 4, False), (4, 4, True)], rejected = [],
      peak = 4\<rparr>"
  by (simp add: batch_eval fetch_timed_out fetch_answered fetch_cancelled numero_eval)

lemma run_21:
  "pc (fetchBatchProcesses (example_args 1 21 True)
     [answered 1, answered 2, timed_out 19, timed_out 20, timed_out 21,
      cancelled 3, cancelled 4, cancelled 5, cancelled 6, cancelled 7, cancelled 8,
      cancelled 9, cancelled 10, cancelled 11, cancelled 12, cancelled 13, cancelled 14,
      cancelled 15, cancelled 16, cancelled 17, cancelled 18])
   = Returned [example_record ''018/000001/2025'', example_record ''018/000002/2025'']"
  by (simp add: batch_eval fetch_timed_out fetch_answered fetch_cancelled numero_eval)

lemma run_21_open:
  "rejected (fetchBatchProcesses (example_args 1 21 True)
     [answered 1, answered 2, timed_out 19, timed_out 20, timed_out 21]) = [21]
  \<and> consecutiveConnErrors (fetchBatchProcesses (example_args 1 21 True)
     [answered 1, answered 2, timed_out 19, timed_out 20, timed_out 21]) = 3
  \<and> pc (fetchBatchProcesses (example_args 1 21 True)
     [answered 1, answered 2, timed_out 19, timed_out 20, timed_out 21]) = AwaitAllSettled"
  by (simp add: batch_eval fetch_timed_out fetch_answered fetch_cancelled numero_eval)


lemma run_two:
  "fetchBatchProcesses (example_args 1 2 True) [timed_out 2, answered 1]
   = \<lparr>results = [example_record ''018/000001/2025''], active = [], doneCount = 2,
      consecutiveConnErrors = 0, aborted = False, loop_i = 3,
      pc = Returned [example_record ''018/000001/2025''],
      calls = [''018/000001/2025'', ''018/000002/2025''],
      progress = [(1, 2, True), (2, 2, False)], rejected = [], peak = 2\<rparr>"
  by (simp add: batch_eval fetch_timed_out fetch_answered fetch_cancelled numero_eval)

lemma run_four_controller:
  "fetchBatchProcesses (example_args 1 4 True) [timed_out 1, timed_out 2, timed_out 3]
   = \<lparr>results = [], active = [4], doneCount = 3, consecutiveConnErrors = 3, aborted = True,
      loop_i = 5, pc = AwaitAllSettled,
      calls = [''018/000001/2025'', ''018/000002/2025'', ''018/000003/2025'', ''018/000004/2025''],
      progress = [(1, 4, True), (2, 4, True), (3, 4, True)], rejected = [3], peak = 4\<rparr>"
  "pc (fetchBatchProcesses (example_args 1 4 True)
        ([timed_out 1, timed_out 2, timed_out 3] @ [answered 4])) = Returned []"
  by (simp_all add: batch_eval fetch_timed_out fetch_answered fetch_cancelled numero_eval)

lemma run_four_no_controller:
  "fetchBatchProcesses (example_args 1 4 False) [timed_out 1, timed_out 2, timed_out 3]
   = \<lparr>results = [], active = [4], doneCount = 3, consecutiveConnErrors = 3, aborted = False,
      loop_i = 5, pc = AwaitAllSettled,
      calls = [''018/000001/2025'', ''018/000002/2025'', ''018/000003/2025'', ''018/000004/2025''],
      progress = [(1, 4, True), (2, 4, True), (3, 4, True)], rejected = [3], peak = 4\<rparr>"
  "pc (fetchBatchProcesses (example_args 1 4 False)
        [timed_out 1, timed_out 2, timed_out 3, answered 4])
     = Returned [example_record ''018/000004/2025'']"
  by (simp_all add: batch_eval fetch_timed_out fetch_answered fetch_cancelled numero_eval)

section \<open>The concurrency window\<close>








section \<open>Progress reports\<close>

lemma loops_launched:
  "exact_range a \<Longrightarrow> arg_start a \<le> loop_i s
     \<Longrightarrow> calls s = map (numero a) [arg_start a..loop_i s - 1]
     \<Longrightarrow> loop_i s \<le> arg_end a + 1 \<or> loop_i s = arg_start a
     \<Longrightarrow> launched_inv a (for_loop a s)"
  "exact_range a \<Longrightarrow> arg_start a \<le> loop_i s \<Longrightarrow> loop_i s \<le> arg_end a
     \<Longrightarrow> calls s = map (numero a) [arg_start a..loop_i s]
     \<Longrightarrow> launched_inv a (while_loop a s)"
proof (induction a s and a s rule: for_loop_while_loop.induct)
  case (1 a s)
  show ?case
  proof (cases "loop_i s \<le> arg_end a \<and> \<not> aborted s")
    case True
    have "[arg_start a..loop_i s] = [arg_start a..loop_i s - 1] @ [loop_i s]"
      using "1.prems"(2) by (rule upto_rec2)
    with "1.prems" True have "calls (launch a (loop_i s) s) = map (numero a) [arg_start a..loop_i s]"
      and "loop_i (launch a (loop_i s) s) = loop_i s"
      by (simp_all add: launch_def)
    with True "1.IH" "1.prems"(1,2) show ?thesis by (subst for_loop.simps) simp
  next
    case False
    with "1.prems" show ?thesis
      by (subst for_loop.simps)
        (auto simp: launched_inv_def await_all_settled_def in_loop_def after_loop_def)
  qed
next
  case (2 a s)
  have j: "js_increment (loop_i s) = loop_i s + 1"
    using "2.prems"(1,2,3) by (intro js_increment_exact) (simp_all add: exact_range_def)
  show ?case
  proof (cases "CONCURRENCY \<le> length (active s) \<and> \<not> aborted s")
    case True
    with "2.prems" show ?thesis
      by (subst while_loop.simps) (simp add: launched_inv_def in_loop_def after_loop_def)
  next
    case False
    have "launched_inv a (for_loop a (s\<lparr>loop_i := js_increment (loop_i s)\<rparr>))"
      using False "2.IH" "2.prems" unfolding j
      by (cases "CONCURRENCY \<le> length (active s)") auto
    with False show ?thesis by (subst while_loop.simps) auto
  qed
qed

lemma step_launched:
  assumes ex: "exact_range a" and inv: "launched_inv a s"
  shows "launched_inv a (step a s e)"
proof (cases e)
  case AbortRequested
  with inv show ?thesis by (auto simp: launched_inv_def abort_def)
next
  case (Completes k r)
  show ?thesis
  proof (cases "k \<in> set (active s)")
    case False
    with Completes inv show ?thesis by simp
  next
    case True
    obtain out s1 where of: "on_fetched a (fetchProcessData (numero a k) (arg_firstOnly a) r) s = (out, s1)"
      by (cases "on_fetched a (fetchProcessData (numero a k) (arg_firstOnly a) r) s")
    note fr = on_fetched_frame[OF of]
    note st = step_Completes[OF True of]
    show ?thesis
    proof (cases "pc s")
      case AwaitRace
      with inv have pre: "arg_start a \<le> loop_i s" "loop_i s \<le> arg_end a"
        "calls s = map (numero a) [arg_start a..loop_i s]"
        by (auto simp: launched_inv_def in_loop_def)
      then have "launched_inv a (while_loop a (finally_delete k out s1))"
        by (intro loops_launched(2)[OF ex]) (simp_all add: fr)
      with AwaitRace pre show ?thesis unfolding Completes st
        by (auto simp: launched_inv_def in_loop_def after_loop_def fr)
    next
      case AwaitAllSettled
      with inv fr(8) show ?thesis unfolding Completes st
        by (auto simp: launched_inv_def in_loop_def after_loop_def fr(1-5))
    next
      case Running
      with inv show ?thesis by (simp add: launched_inv_def in_loop_def after_loop_def)
    next
      case (Returned rs)
      with inv fr(8) show ?thesis unfolding Completes st
        by (auto simp: launched_inv_def in_loop_def after_loop_def fr(1-5))
    next
      case (Threw m)
      with inv show ?thesis unfolding Completes st
        by (auto simp: launched_inv_def in_loop_def after_loop_def fr(1-5))
    qed
  qed
qed



lemma start_launched: "exact_range a \<Longrightarrow> launched_inv a (for_loop a (initial a))"
  by (rule loops_launched(1)) (simp_all add: initial_def)

lemma calls_bounded:
  assumes "exact_range a" and "launched_inv a s"
  shows "int (length (calls s)) \<le> 9007199254740992"
proof (cases "in_loop (pc s)")
  case True
  with assms show ?thesis by (auto simp: launched_inv_def exact_range_def)
next
  case False
  with assms have "after_loop (pc s)" by (auto simp: launched_inv_def)
  with assms show ?thesis by (auto simp: launched_inv_def exact_range_def)
qed

lemma loops_count:
  "\<not> aborted s \<longrightarrow> doneCount s + int (length (active s)) = int (length (calls s))
     \<Longrightarrow> \<not> aborted (for_loop a s) \<longrightarrow>
         doneCount (for_loop a s) + int (length (active (for_loop a s)))
           = int (length (calls (for_loop a s)))"
  "\<not> aborted s \<longrightarrow> doneCount s + int (length (active s)) = int (length (calls s))
     \<Longrightarrow> \<not> aborted (while_loop a s) \<longrightarrow>
         doneCount (while_loop a s) + int (length (active (while_loop a s)))
           = int (length (calls (while_loop a s)))"
proof (induction a s and a s rule: for_loop_while_loop.induct)
  case (1 a s)
  show ?case
  proof (cases "loop_i s \<le> arg_end a \<and> \<not> aborted s")
    case True
    with "1.prems" have "\<not> aborted (launch a (loop_i s) s) \<longrightarrow>
        doneCount (launch a (loop_i s) s) + int (length (active (launch a (loop_i s) s)))
          = int (length (calls (launch a (loop_i s) s)))"
      by (simp add: launch_def)
    with True "1.IH" show ?thesis by (subst (1 2 3 4) for_loop.simps) simp
  next
    case False
    with "1.prems" show ?thesis
      by (subst (1 2 3 4) for_loop.simps) (auto simp: await_all_settled_def)
  qed
next
  case (2 a s)
  let ?s' = "s\<lparr>loop_i := js_increment (loop_i s)\<rparr>"
  show ?case
  proof (cases "CONCURRENCY \<le> length (active s) \<and> \<not> aborted s")
    case True
    with "2.prems" show ?thesis by (subst (1 2 3 4) while_loop.simps) simp
  next
    case False
    have "\<not> aborted (for_loop a ?s') \<longrightarrow>
        doneCount (for_loop a ?s') + int (length (active (for_loop a ?s')))
          = int (length (calls (for_loop a ?s')))"
      using False "2.IH" "2.prems" by (cases "CONCURRENCY \<le> length (active s)") auto
    with False show ?thesis by (subst (1 2 3 4) while_loop.simps) auto
  qed
qed

lemma loops_returned:
  "pc (for_loop a s) = Returned rs \<Longrightarrow> active (for_loop a s) = [] \<and> rs = results (for_loop a s)"
  "pc (while_loop a s) = Returned rs \<Longrightarrow> active (while_loop a s) = [] \<and> rs = results (while_loop a s)"
proof (induction a s and a s rule: for_loop_while_loop.induct)
  case (1 a s)
  show ?case
  proof (cases "loop_i s \<le> arg_end a \<and> \<not> aborted s")
    case True
    with "1.IH" "1.prems" show ?thesis by (subst (asm) for_loop.simps, subst (1 2) for_loop.simps) simp
  next
    case False
    with "1.prems" show ?thesis
      by (subst (asm) for_loop.simps, subst (1 2) for_loop.simps)
         (auto simp: await_all_settled_def split: if_splits)
  qed
next
  case (2 a s)
  show ?case
  proof (cases "CONCURRENCY \<le> length (active s) \<and> \<not> aborted s")
    case True
    with "2.prems" show ?thesis by (subst (asm) while_loop.simps) simp
  next
    case False
    with "2.IH" "2.prems" show ?thesis
      by (subst (asm) while_loop.simps, subst (1 2) while_loop.simps)
         (cases "CONCURRENCY \<le> length (active s)"; auto)
  qed
qed

lemma loops_count_inv:
  assumes "count_inv a s"
  shows "count_inv a (for_loop a s)" and "count_inv a (while_loop a s)"
  using assms loops_count[of s a] loops_frame[of a s]
  by (simp_all add: count_inv_def)

lemma on_fetched_count:
  assumes of: "on_fetched a d s = (out, s1)" and k: "k \<in> set (active s)"
    and inv: "count_inv a s" and b: "int (length (calls s)) \<le> 9007199254740992"
  shows "count_inv a (finally_delete k out s1)"
proof (cases "aborted s")
  case True
  with of have "s1 = s" by (simp add: on_fetched_def)
  with True inv show ?thesis by (simp add: count_inv_def)
next
  case False
  obtain n where n: "length (active s) = Suc n" using k by (cases "active s") auto
  have r: "length (remove1 k (active s)) = n" using k n by (simp add: length_remove1)
  from inv False have eq: "doneCount s + int (length (active s)) = int (length (calls s))"
    and d0: "0 \<le> doneCount s"
    by (simp_all add: count_inv_def)
  with n b have "doneCount s < 9007199254740992" by simp
  with d0 have j: "js_increment (doneCount s) = doneCount s + 1"
    by (intro js_increment_exact) simp_all
  have u: "[1..doneCount s + 1] = [1..doneCount s] @ [doneCount s + 1]"
    using d0 by (subst upto_rec2) simp_all
  from of False inv eq d0 n r show ?thesis
    by (auto simp: on_fetched_def report_def abort_def Let_def count_inv_def j u
          split: if_splits)
qed

lemma step_count:
  assumes inv: "count_inv a s" and b: "int (length (calls s)) \<le> 9007199254740992"
  shows "count_inv a (step a s e)"
proof (cases e)
  case AbortRequested
  with inv show ?thesis by (auto simp: count_inv_def abort_def)
next
  case (Completes k r)
  show ?thesis
  proof (cases "k \<in> set (active s)")
    case False
    with Completes inv show ?thesis by simp
  next
    case True
    obtain out s1 where of: "on_fetched a (fetchProcessData (numero a k) (arg_firstOnly a) r) s = (out, s1)"
      by (cases "on_fetched a (fetchProcessData (numero a k) (arg_firstOnly a) r) s")
    note st = step_Completes[OF True of]
    note fd = on_fetched_count[OF of True inv b]
    have wl: "count_inv a (while_loop a (finally_delete k out s1))"
      by (rule loops_count_inv(2)[OF fd])
    from fd have x: "count_inv a ((finally_delete k out s1)\<lparr>pc := p\<rparr>)" for p
      by (simp add: count_inv_def)
    from fd wl x show ?thesis unfolding Completes st
      by (cases "pc s"; cases out) simp_all
  qed
qed

lemma run_progress:
  assumes "exact_range a"
  shows "launched_inv a s \<Longrightarrow> count_inv a s
     \<Longrightarrow> launched_inv a (run a s evs) \<and> count_inv a (run a s evs)"
proof (induction evs arbitrary: s)
  case Nil
  then show ?case by simp
next
  case (Cons e evs)
  have "launched_inv a (step a s e)"
    by (rule step_launched[OF assms Cons.prems(1)])
  moreover have "count_inv a (step a s e)"
    by (rule step_count[OF Cons.prems(2) calls_bounded[OF assms Cons.prems(1)]])
  ultimately show ?case using Cons.IH[of "step a s e"] by simp
qed

lemma step_returned: "returned_inv s \<Longrightarrow> returned_inv (step a s e)"
proof (cases e)
  case AbortRequested
  assume "returned_inv s"
  with AbortRequested show ?thesis by (auto simp: returned_inv_def abort_def)
next
  case (Completes k r)
  assume inv: "returned_inv s"
  show ?thesis
  proof (cases "k \<in> set (active s)")
    case False
    with Completes inv show ?thesis by simp
  next
    case True
    obtain out s1 where of: "on_fetched a (fetchProcessData (numero a k) (arg_firstOnly a) r) s = (out, s1)"
      by (cases "on_fetched a (fetchProcessData (numero a k) (arg_firstOnly a) r) s")
    note fr = on_fetched_frame[OF of]
    note st = step_Completes[OF True of]
    have nr: "pc s \<noteq> Returned rs" for rs
      using inv True by (auto simp: returned_inv_def)
    have wl: "returned_inv (while_loop a (finally_delete k out s1))"
      using loops_returned(2)[of a "finally_delete k out s1"] by (auto simp: returned_inv_def)
    from nr wl show ?thesis unfolding Completes st
      by (cases "pc s") (auto simp: returned_inv_def fr(1,2))
  qed
qed

lemma run_returned: "returned_inv s \<Longrightarrow> returned_inv (run a s evs)"
  by (induction evs arbitrary: s) (simp_all add: step_returned)

lemma start_returned: "returned_inv (for_loop a (initial a))"
  using loops_returned(1)[of a "initial a"] by (auto simp: returned_inv_def)



lemma start_count: "count_inv a (for_loop a (initial a))"
  by (rule loops_count_inv(1)) (simp add: count_inv_def initial_def)

section \<open>The circuit breaker\<close>

text \<open>
  Outside an abort, a connection error adds one to the counter and any other outcome
  clears it; the task rejects with \<^verbatim>\<open>PREFEITURA_OFFLINE\<close> exactly when the counter reaches
  the threshold, having aborted the controller if there is one.
\<close>

lemma on_fetched_connection_error:
  assumes "\<not> aborted s" and "is_connection_error d"
    and "0 \<le> consecutiveConnErrors s" and "consecutiveConnErrors s < 9007199254740992"
  shows "consecutiveConnErrors (snd (on_fetched a d s)) = consecutiveConnErrors s + 1"
    and "fst (on_fetched a d s) = Rejected ''PREFEITURA_OFFLINE'' \<longleftrightarrow> 2 \<le> consecutiveConnErrors s"
    and "2 \<le> consecutiveConnErrors s \<Longrightarrow> arg_controller a \<Longrightarrow> aborted (snd (on_fetched a d s))"
proof -
  have j: "js_increment (consecutiveConnErrors s) = consecutiveConnErrors s + 1"
    using assms(3,4) by (intro js_increment_exact) simp_all
  from assms(1,2) show "consecutiveConnErrors (snd (on_fetched a d s)) = consecutiveConnErrors s + 1"
    and "fst (on_fetched a d s) = Rejected ''PREFEITURA_OFFLINE'' \<longleftrightarrow> 2 \<le> consecutiveConnErrors s"
    and "2 \<le> consecutiveConnErrors s \<Longrightarrow> arg_controller a \<Longrightarrow> aborted (snd (on_fetched a d s))"
    by (auto simp: on_fetched_def report_def abort_def Let_def MAX_CONSECUTIVE_CONN_ERRORS_def j)
qed

lemma on_fetched_other:
  assumes "\<not> aborted s" and "\<not> is_connection_error d"
  shows "consecutiveConnErrors (snd (on_fetched a d s)) = 0"
    and "fst (on_fetched a d s) = Fulfilled"
  using assms by (auto simp: on_fetched_def report_def)

text \<open>Suspended in the race, the body rethrows the rejection of the task.\<close>

lemma race_rethrows:
  assumes "pc s = AwaitRace" and "k \<in> set (active s)" and "\<not> aborted s"
    and "2 \<le> consecutiveConnErrors s" and "consecutiveConnErrors s < 9007199254740992"
    and "is_connection_error (fetchProcessData (numero a k) (arg_firstOnly a) r)"
  shows "pc (step a s (Completes k r)) = Threw ''PREFEITURA_OFFLINE''"
proof -
  let ?d = "fetchProcessData (numero a k) (arg_firstOnly a) r"
  obtain out s1 where of: "on_fetched a ?d s = (out, s1)" by (cases "on_fetched a ?d s")
  have "0 \<le> consecutiveConnErrors s" using assms(4) by simp
  from on_fetched_connection_error(2)[OF assms(3,6) this assms(5), of a] assms(4) of
  have "out = Rejected ''PREFEITURA_OFFLINE''" by simp
  with assms(1) show ?thesis unfolding step_Completes[OF assms(2) of] by simp
qed

text \<open>Suspended in \<^verbatim>\<open>Promise.allSettled\<close>, it does not: the rejection is absorbed.\<close>

lemma all_settled_absorbs:
  assumes "pc s = AwaitAllSettled"
  shows "after_loop (pc (step a s e))"
proof (cases e)
  case AbortRequested
  with assms show ?thesis by (simp add: abort_def after_loop_def)
next
  case (Completes k r)
  show ?thesis
  proof (cases "k \<in> set (active s)")
    case False
    with Completes assms show ?thesis by (simp add: after_loop_def)
  next
    case True
    let ?d = "fetchProcessData (numero a k) (arg_firstOnly a) r"
    obtain out s1 where of: "on_fetched a ?d s = (out, s1)" by (cases "on_fetched a ?d s")
    from assms show ?thesis unfolding Completes step_Completes[OF True of]
      by (simp add: after_loop_def on_fetched_frame(2)[OF of])
  qed
qed

lemma step_circuit: "circuit_inv a s \<Longrightarrow> circuit_inv a (step a s e)"
proof (cases e)
  case AbortRequested
  assume "circuit_inv a s"
  with AbortRequested show ?thesis by (auto simp: circuit_inv_def abort_def)
next
  case (Completes k r)
  assume inv: "circuit_inv a s"
  show ?thesis
  proof (cases "k \<in> set (active s)")
    case False
    with Completes inv show ?thesis by simp
  next
    case True
    obtain out s1 where of: "on_fetched a (fetchProcessData (numero a k) (arg_firstOnly a) r) s = (out, s1)"
      by (cases "on_fetched a (fetchProcessData (numero a k) (arg_firstOnly a) r) s")
    note fr = on_fetched_frame[OF of]
    note st = step_Completes[OF True of]
    show ?thesis
    proof (cases "pc s")
      case AwaitRace
      with inv fr(8,9,11) loops_pc(2)[of a "finally_delete k out s1"]
        loops_frame(2)[of a "finally_delete k out s1"]
      show ?thesis unfolding Completes st
        by (auto simp: circuit_inv_def split: settlement.splits)
    next
      case AwaitAllSettled
      with inv fr(8,9,11) show ?thesis unfolding Completes st
        by (auto simp: circuit_inv_def fr(1-5) split: settlement.splits)
    next
      case Running
      with inv show ?thesis by (simp add: circuit_inv_def)
    next
      case (Returned rs)
      with inv fr(8,9,11) show ?thesis unfolding Completes st
        by (auto simp: circuit_inv_def fr(1-5) split: settlement.splits)
    next
      case (Threw m)
      with inv fr(8,9,11) show ?thesis unfolding Completes st
        by (auto simp: circuit_inv_def fr(1-5) split: settlement.splits)
    qed
  qed
qed

lemma run_circuit: "circuit_inv a s \<Longrightarrow> circuit_inv a (run a s evs)"
  by (induction evs arbitrary: s) (simp_all add: step_circuit)

lemma start_circuit: "circuit_inv a (for_loop a (initial a))"
proof -
  have "rejected (for_loop a (initial a)) = []"
    using loops_frame(1)[of a "initial a"] by (simp add: initial_def)
  with loops_pc(1)[of a "initial a"] show ?thesis by (simp add: circuit_inv_def)
qed

lemma step_frozen:
  assumes "aborted s \<or> pc s \<noteq> AwaitRace"
  shows "calls (step a s e) = calls s \<and> set (active (step a s e)) \<subseteq> set (active s)
       \<and> (aborted (step a s e) \<or> pc (step a s e) \<noteq> AwaitRace)"
proof (cases e)
  case AbortRequested
  with assms show ?thesis by (auto simp: abort_def)
next
  case (Completes k r)
  show ?thesis
  proof (cases "k \<in> set (active s)")
    case False
    with Completes assms show ?thesis by simp
  next
    case True
    obtain out s1 where of: "on_fetched a (fetchProcessData (numero a k) (arg_firstOnly a) r) s = (out, s1)"
      by (cases "on_fetched a (fetchProcessData (numero a k) (arg_firstOnly a) r) s")
    note fr = on_fetched_frame[OF of]
    note st = step_Completes[OF True of]
    have sub: "set (remove1 k (active s)) \<subseteq> set (active s)" by (rule set_remove1_subset)
    show ?thesis
    proof (cases "pc s")
      case AwaitRace
      with assms have ab: "aborted s" by simp
      then have "aborted (finally_delete k out s1)" and "out = Fulfilled" using fr(7,8) by simp_all
      with AwaitRace loops_aborted(2)[of "finally_delete k out s1" a]
        loops_frame(2)[of a "finally_delete k out s1"] sub
      show ?thesis unfolding Completes st by (simp add: fr(1-5))
    next
      case AwaitAllSettled
      with sub show ?thesis unfolding Completes st by (simp add: fr(1-5))
    next
      case Running
      with sub show ?thesis unfolding Completes st by (simp add: fr(1-5))
    next
      case (Returned rs)
      with sub show ?thesis unfolding Completes st by (simp add: fr(1-5))
    next
      case (Threw m)
      with sub show ?thesis unfolding Completes st by (simp add: fr(1-5))
    qed
  qed
qed

lemma run_frozen:
  "aborted s \<or> pc s \<noteq> AwaitRace \<Longrightarrow>
     calls (run a s evs) = calls s \<and> set (active (run a s evs)) \<subseteq> set (active s)"
proof (induction evs arbitrary: s)
  case Nil
  then show ?case by simp
next
  case (Cons e evs)
  from step_frozen[OF Cons.prems, of a e] Cons.IH[of "step a s e"]
  show ?case by auto
qed

lemma step_results:
  "set (results (step a s e)) \<subseteq> set (results s) \<union> produced a e"
  "aborted s \<Longrightarrow> results (step a s e) = results s \<and> aborted (step a s e)"
  "rejected s \<noteq> [] \<Longrightarrow> rejected (step a s e) \<noteq> []"
  "e \<noteq> AbortRequested \<Longrightarrow> aborted (step a s e) \<Longrightarrow> aborted s \<or> rejected (step a s e) \<noteq> []"
proof -
  have "(set (results (step a s e)) \<subseteq> set (results s) \<union> produced a e)
     \<and> (aborted s \<longrightarrow> results (step a s e) = results s \<and> aborted (step a s e))
     \<and> (rejected s \<noteq> [] \<longrightarrow> rejected (step a s e) \<noteq> [])
     \<and> (e \<noteq> AbortRequested \<longrightarrow> aborted (step a s e) \<longrightarrow> aborted s \<or> rejected (step a s e) \<noteq> [])"
  proof (cases e)
    case AbortRequested
    then show ?thesis by (auto simp: abort_def)
  next
    case (Completes k r)
    show ?thesis
    proof (cases "k \<in> set (active s)")
      case False
      with Completes show ?thesis by simp
    next
      case True
      let ?d = "fetchProcessData (numero a k) (arg_firstOnly a) r"
      obtain out s1 where of: "on_fetched a ?d s = (out, s1)"
        by (cases "on_fetched a ?d s")
      note fr = on_fetched_frame[OF of]
      note st = step_Completes[OF True of]
      have r1: "set (results s1) \<subseteq> set (results s) \<union> produced a e"
        using of unfolding Completes
        by (auto simp: on_fetched_def report_def abort_def Let_def produced_def pushed_def
              split: if_splits fetch_result.splits)
      have r2: "aborted s \<longrightarrow> results s1 = results s \<and> aborted s1" using fr(6) by auto
      have r3: "rejected s \<noteq> [] \<longrightarrow> rejected (finally_delete k out s1) \<noteq> []"
        by (simp add: fr(9) split: settlement.splits)
      have r4: "aborted s1 \<longrightarrow> aborted s \<or> rejected (finally_delete k out s1) \<noteq> []"
        using fr(12) by (auto split: settlement.splits)
      from r1 r2 r3 r4 loops_frame(2)[of a "finally_delete k out s1"]
      show ?thesis unfolding Completes st
        by (cases "pc s"; cases out) auto
    qed
  qed
  then show "set (results (step a s e)) \<subseteq> set (results s) \<union> produced a e"
    "aborted s \<Longrightarrow> results (step a s e) = results s \<and> aborted (step a s e)"
    "rejected s \<noteq> [] \<Longrightarrow> rejected (step a s e) \<noteq> []"
    "e \<noteq> AbortRequested \<Longrightarrow> aborted (step a s e) \<Longrightarrow> aborted s \<or> rejected (step a s e) \<noteq> []"
    by blast+
qed

lemma run_aborted_results: "aborted s \<Longrightarrow> results (run a s evs) = results s"
proof (induction evs arbitrary: s)
  case Nil
  then show ?case by simp
next
  case (Cons e evs)
  from step_results(2)[OF Cons.prems, of a e] Cons.IH[of "step a s e"]
  show ?case by simp
qed

lemma run_rejected_mono: "rejected s \<noteq> [] \<Longrightarrow> rejected (run a s evs) \<noteq> []"
  by (induction evs arbitrary: s) (simp_all add: step_results(3))

lemma run_results:
  "set (results (run a s evs)) \<subseteq> set (results s) \<union> (\<Union>e\<in>set evs. produced a e)"
proof (induction evs arbitrary: s)
  case Nil
  then show ?case by simp
next
  case (Cons e evs)
  from step_results(1)[of a s e] Cons.IH[of "step a s e"]
  show ?case by auto
qed

lemma run_no_abort:
  "AbortRequested \<notin> set evs \<Longrightarrow> aborted (run a s evs)
     \<Longrightarrow> aborted s \<or> rejected (run a s evs) \<noteq> []"
proof (induction evs arbitrary: s)
  case Nil
  then show ?case by simp
next
  case (Cons e evs)
  then have e: "e \<noteq> AbortRequested" and evs: "AbortRequested \<notin> set evs" by auto
  from Cons.IH[OF evs, of "step a s e"] Cons.prems(2)
  have "aborted (step a s e) \<or> rejected (run a (step a s e) evs) \<noteq> []" by simp
  then show ?case
  proof
    assume "aborted (step a s e)"
    from step_results(4)[OF e this] run_rejected_mono[of "step a s e" a evs]
    show ?thesis by auto
  next
    assume "rejected (run a (step a s e) evs) \<noteq> []"
    then show ?thesis by simp
  qed
qed

text \<open>
  C5, as the code has it. Take a run with a progress callback over \<open>[start, end]\<close>, where
  \<open>- 2 ^ 53 \<le> start \<le> end < 2 ^ 53\<close> and \<open>end - start < 2 ^ 53\<close>, so that the counters count
  exactly; nobody requests cancellation, no task rejects, and the run has returned. The
  callback was called exactly \<open>end - start + 1\<close> times, with the completed counts
  \<open>1, 2, \<dots>\<close> in this order and the total \<open>end - start + 1\<close>. Every completion outside an
  abort increments the completed count and calls the callback once with the new count,
  the flag set exactly when the data is the connection-error marker; a completion that
  finds the signal aborted does neither.
\<close>

theorem progress_once_per_attempt:
  assumes "arg_onProgress a"
    and "- 9007199254740992 \<le> arg_start a" and "arg_start a \<le> arg_end a"
    and "arg_end a < 9007199254740992" and "arg_end a - arg_start a < 9007199254740992"
    and "AbortRequested \<notin> set evs"
    and "pc (fetchBatchProcesses a evs) = Returned rs"
    and "rejected (fetchBatchProcesses a evs) = []"
  shows "int (length (progress (fetchBatchProcesses a evs))) = arg_end a - arg_start a + 1
       \<and> map fst (progress (fetchBatchProcesses a evs)) = [1..arg_end a - arg_start a + 1]
       \<and> (\<forall>e\<in>set (progress (fetchBatchProcesses a evs)).
            fst (snd e) = arg_end a - arg_start a + 1)
       \<and> (\<forall>s d. progress (snd (on_fetched a d s))
              = (if aborted s then progress s
                 else progress s @ [(js_increment (doneCount s), total a, is_connection_error d)])
            \<and> doneCount (snd (on_fetched a d s))
              = (if aborted s then doneCount s else js_increment (doneCount s)))"
proof -
  let ?s = "fetchBatchProcesses a evs"
  have ex: "exact_range a" using assms(2,4,5) by (simp add: exact_range_def)
  have "launched_inv a ?s \<and> count_inv a ?s"
    unfolding fetchBatchProcesses_def
    by (rule run_progress[OF ex start_launched[OF ex] start_count])
  then have li: "launched_inv a ?s" and ci: "count_inv a ?s" by simp_all
  have ri: "returned_inv ?s"
    unfolding fetchBatchProcesses_def by (rule run_returned[OF start_returned])
  have "aborted ?s \<Longrightarrow> False"
    using run_no_abort[OF assms(6), of a "for_loop a (initial a)"] assms(8)
      loops_frame(1)[of a "initial a"]
    by (auto simp: fetchBatchProcesses_def initial_def)
  then have na: "\<not> aborted ?s" by blast
  from li assms(7) na have c: "calls ?s = map (numero a) [arg_start a..loop_i ?s - 1]"
    and l: "loop_i ?s \<le> arg_end a + 1 \<or> loop_i ?s = arg_start a" "arg_end a < loop_i ?s"
    by (auto simp: launched_inv_def after_loop_def in_loop_def)
  with assms(3) have "loop_i ?s = arg_end a + 1" by auto
  with c have len: "int (length (calls ?s)) = arg_end a - arg_start a + 1"
    using assms(3) by simp
  from ri assms(7) have "active ?s = []" by (simp add: returned_inv_def)
  with ci na len have d: "doneCount ?s = arg_end a - arg_start a + 1"
    by (simp add: count_inv_def)
  from ci assms(1) have m: "map fst (progress ?s) = [1..doneCount ?s]"
    and t: "\<forall>e\<in>set (progress ?s). fst (snd e) = total a"
    by (auto simp: count_inv_def)
  have "length (progress ?s) = length (map fst (progress ?s))" by simp
  also have "\<dots> = nat (doneCount ?s)" unfolding m by simp
  finally have n: "int (length (progress ?s)) = arg_end a - arg_start a + 1"
    using d assms(3) by simp
  have tot: "total a = arg_end a - arg_start a + 1"
    by (rule total_exact[OF assms(3,5)])
  have h: "\<forall>s d. progress (snd (on_fetched a d s))
              = (if aborted s then progress s
                 else progress s @ [(js_increment (doneCount s), total a, is_connection_error d)])
            \<and> doneCount (snd (on_fetched a d s))
              = (if aborted s then doneCount s else js_increment (doneCount s))"
    using assms(1) by (auto simp: on_fetched_def report_def abort_def Let_def)
  from n m d t tot h show ?thesis by simp
qed

theorem progress_once_per_attempt_witness:
  "pc (fetchBatchProcesses (example_args 1 2 True) [timed_out 2, answered 1])
     = Returned [example_record ''018/000001/2025'']
   \<and> int (length (progress (fetchBatchProcesses (example_args 1 2 True)
                             [timed_out 2, answered 1]))) = 2 - 1 + 1
   \<and> map fst (progress (fetchBatchProcesses (example_args 1 2 True) [timed_out 2, answered 1]))
       = [1..2 - 1 + 1]"
proof -
  have h: "arg_onProgress (example_args 1 2 True)"
    "- 9007199254740992 \<le> arg_start (example_args 1 2 True)"
    "arg_start (example_args 1 2 True) \<le> arg_end (example_args 1 2 True)"
    "arg_end (example_args 1 2 True) < 9007199254740992"
    "arg_end (example_args 1 2 True) - arg_start (example_args 1 2 True) < 9007199254740992"
    "AbortRequested \<notin> set [timed_out 2, answered 1]"
    "pc (fetchBatchProcesses (example_args 1 2 True) [timed_out 2, answered 1])
       = Returned [example_record ''018/000001/2025'']"
    "rejected (fetchBatchProcesses (example_args 1 2 True) [timed_out 2, answered 1]) = []"
    by (simp_all add: run_two) (simp_all add: example_args_def timed_out_def answered_def)
  from progress_once_per_attempt [OF h] h(7) show ?thesis
    by (simp add: example_args_def)
qed

text \<open>
  C5, as the claim has it, fails where doubles stop counting. Over \<open>[2 ^ 53, 2 ^ 53]\<close> the
  counter never passes the end of the range: the same identifier is launched again and
  again, and with no outage and no cancellation the callback has been called twice after
  two answers, for a total of one. Over \<open>[- 2 ^ 53 - 2, - 2 ^ 53]\<close> the counter skips a
  number: the run returns after two calls, for a total of three.
\<close>

theorem progress_count_counterexample:
  "AbortRequested \<notin> set [answered 9007199254740992, answered 9007199254740992]
   \<and> rejected (fetchBatchProcesses (example_args 9007199254740992 9007199254740992 True)
        [answered 9007199254740992, answered 9007199254740992]) = []
   \<and> \<not> aborted (fetchBatchProcesses (example_args 9007199254740992 9007199254740992 True)
        [answered 9007199254740992, answered 9007199254740992])
   \<and> progress (fetchBatchProcesses (example_args 9007199254740992 9007199254740992 True)
        [answered 9007199254740992, answered 9007199254740992])
       = [(1, 1, False), (2, 1, False)]
   \<and> arg_end (example_args 9007199254740992 9007199254740992 True)
       - arg_start (example_args 9007199254740992 9007199254740992 True) + 1 = 1
   \<and> AbortRequested \<notin> set [answered (- 9007199254740994), answered (- 9007199254740992)]
   \<and> rejected (fetchBatchProcesses (example_args (- 9007199254740994) (- 9007199254740992) True)
        [answered (- 9007199254740994), answered (- 9007199254740992)]) = []
   \<and> pc (fetchBatchProcesses (example_args (- 9007199254740994) (- 9007199254740992) True)
        [answered (- 9007199254740994), answered (- 9007199254740992)])
       = Returned (results
           (fetchBatchProcesses (example_args (- 9007199254740994) (- 9007199254740992) True)
              [answered (- 9007199254740994), answered (- 9007199254740992)]))
   \<and> progress (fetchBatchProcesses (example_args (- 9007199254740994) (- 9007199254740992) True)
        [answered (- 9007199254740994), answered (- 9007199254740992)])
       = [(1, 3, False), (2, 3, False)]
   \<and> arg_end (example_args (- 9007199254740994) (- 9007199254740992) True)
       - arg_start (example_args (- 9007199254740994) (- 9007199254740992) True) + 1 = 3"
  by (simp add: batch_eval fetch_answered js_increment_stalls js_increment_skips)

text \<open>
  C1, on the code. A run over \<open>[1, 3]\<close> with a controller in which all three fetches time
  out: the counter reaches 3 and the third task aborts the controller and rejects with
  \<^verbatim>\<open>PREFEITURA_OFFLINE\<close>; but the body is waiting in \<^verbatim>\<open>Promise.allSettled\<close> by then, and the
  run returns the empty sequence instead of failing.
\<close>

theorem third_error_after_loop_returns:
  "consecutiveConnErrors
     (fetchBatchProcesses (example_args 1 3 True) [timed_out 1, timed_out 2, timed_out 3]) = 3
   \<and> rejected
       (fetchBatchProcesses (example_args 1 3 True) [timed_out 1, timed_out 2, timed_out 3]) = [3]
   \<and> aborted
       (fetchBatchProcesses (example_args 1 3 True) [timed_out 1, timed_out 2, timed_out 3])
   \<and> pc (fetchBatchProcesses (example_args 1 3 True) [timed_out 1, timed_out 2, timed_out 3])
       = Returned []"
  by (simp add: run_three_timeouts)

text \<open>
  C2, on the code. A run over \<open>[1, 21]\<close> with a controller: two fetches are answered, the
  loop ends, and the fetches of 19, 20 and 21 time out. The third of them rejects with
  \<^verbatim>\<open>PREFEITURA_OFFLINE\<close> while the body waits in \<^verbatim>\<open>Promise.allSettled\<close>; once the fetches
  left have come back cancelled the run returns the two records as an ordinary result.
\<close>

theorem outage_in_last_window_returns_records:
  "rejected (fetchBatchProcesses (example_args 1 21 True)
     [answered 1, answered 2, timed_out 19, timed_out 20, timed_out 21]) = [21]
   \<and> pc (fetchBatchProcesses (example_args 1 21 True)
     [answered 1, answered 2, timed_out 19, timed_out 20, timed_out 21,
      cancelled 3, cancelled 4, cancelled 5, cancelled 6, cancelled 7, cancelled 8,
      cancelled 9, cancelled 10, cancelled 11, cancelled 12, cancelled 13, cancelled 14,
      cancelled 15, cancelled 16, cancelled 17, cancelled 18])
   = Returned [example_record ''018/000001/2025'', example_record ''018/000002/2025'']"
  using run_21 run_21_open by simp

text \<open>
  C8, as the code has it. Once a task has rejected or the signal is aborted, no further
  identifier is launched and the in-flight set only shrinks. With a controller a rejection
  means the signal is aborted, and from the moment the signal is aborted the accumulated
  results never change: what the fetches still in flight bring back is discarded.
\<close>

theorem no_admission_after_abort:
  "(rejected (fetchBatchProcesses a evs) \<noteq> [] \<or> aborted (fetchBatchProcesses a evs) \<longrightarrow>
      calls (fetchBatchProcesses a (evs @ evs')) = calls (fetchBatchProcesses a evs)
      \<and> set (active (fetchBatchProcesses a (evs @ evs')))
          \<subseteq> set (active (fetchBatchProcesses a evs)))
   \<and> (aborted (fetchBatchProcesses a evs) \<longrightarrow>
        results (fetchBatchProcesses a (evs @ evs')) = results (fetchBatchProcesses a evs))
   \<and> (arg_controller a \<and> rejected (fetchBatchProcesses a evs) \<noteq> [] \<longrightarrow>
        aborted (fetchBatchProcesses a evs))"
proof -
  let ?s = "fetchBatchProcesses a evs"
  have ap: "fetchBatchProcesses a (evs @ evs') = run a ?s evs'"
    by (simp add: fetchBatchProcesses_def run_append)
  have ci: "circuit_inv a ?s"
    unfolding fetchBatchProcesses_def by (rule run_circuit[OF start_circuit])
  have "rejected ?s \<noteq> [] \<or> aborted ?s \<Longrightarrow> aborted ?s \<or> pc ?s \<noteq> AwaitRace"
    using ci by (auto simp: circuit_inv_def)
  from run_frozen[OF this, of a evs'] run_aborted_results[of ?s a evs'] ci
  show ?thesis unfolding ap by (auto simp: circuit_inv_def)
qed

theorem no_admission_after_abort_witness:
  "rejected (fetchBatchProcesses (example_args 1 4 True) [timed_out 1, timed_out 2, timed_out 3])
     \<noteq> []
   \<and> aborted (fetchBatchProcesses (example_args 1 4 True) [timed_out 1, timed_out 2, timed_out 3])
   \<and> active (fetchBatchProcesses (example_args 1 4 True) [timed_out 1, timed_out 2, timed_out 3])
       = [4]
   \<and> results (fetchBatchProcesses (example_args 1 4 True)
               ([timed_out 1, timed_out 2, timed_out 3] @ [answered 4])) = []
   \<and> calls (fetchBatchProcesses (example_args 1 4 True)
             ([timed_out 1, timed_out 2, timed_out 3] @ [answered 4]))
       = [''018/000001/2025'', ''018/000002/2025'', ''018/000003/2025'', ''018/000004/2025'']"
  using no_admission_after_abort
    [of "example_args 1 4 True" "[timed_out 1, timed_out 2, timed_out 3]" "[answered 4]"]
  by (simp add: run_four_controller(1))

text \<open>
  C8, as the claim has it, fails when no controller was passed: in a run over \<open>[1, 4]\<close>
  the fetch of 4 is still in flight when the third consecutive timeout rejects, and its
  record is merged into the sequence the run returns.
\<close>

theorem outage_without_controller_merges:
  "rejected (fetchBatchProcesses (example_args 1 4 False) [timed_out 1, timed_out 2, timed_out 3])
     = [3]
   \<and> active (fetchBatchProcesses (example_args 1 4 False) [timed_out 1, timed_out 2, timed_out 3])
       = [4]
   \<and> results (fetchBatchProcesses (example_args 1 4 False) [timed_out 1, timed_out 2, timed_out 3])
       = []
   \<and> pc (fetchBatchProcesses (example_args 1 4 False)
          [timed_out 1, timed_out 2, timed_out 3, answered 4])
       = Returned [example_record ''018/000004/2025'']"
  by (simp add: run_four_no_controller)

section \<open>The accumulated results\<close>

text \<open>
  C10. Every record in the accumulated results was handed to the controller by some
  completion inside a non-empty array; the sequence a run returns is the accumulated
  results; and a completion whose data is \<^verbatim>\<open>null\<close>, the connection-error marker or an
  empty array leaves the results as they are.
\<close>

theorem results_only_from_data:
  "set (results (fetchBatchProcesses a evs)) \<subseteq> (\<Union>e\<in>set evs. produced a e)
   \<and> (pc (fetchBatchProcesses a evs) = Returned rs \<longrightarrow> rs = results (fetchBatchProcesses a evs))
   \<and> (\<forall>s d. (\<forall>rs. d = Data rs \<longrightarrow> rs = []) \<longrightarrow> results (snd (on_fetched a d s)) = results s)"
proof -
  have "set (results (fetchBatchProcesses a evs)) \<subseteq> (\<Union>e\<in>set evs. produced a e)"
    using run_results[of a "for_loop a (initial a)" evs] loops_frame(1)[of a "initial a"]
    by (simp add: fetchBatchProcesses_def initial_def)
  moreover have "returned_inv (fetchBatchProcesses a evs)"
    unfolding fetchBatchProcesses_def by (rule run_returned[OF start_returned])
  then have "pc (fetchBatchProcesses a evs) = Returned rs \<longrightarrow> rs = results (fetchBatchProcesses a evs)"
    by (auto simp: returned_inv_def)
  moreover have "\<forall>s d. (\<forall>rs. d = Data rs \<longrightarrow> rs = []) \<longrightarrow> results (snd (on_fetched a d s)) = results s"
    by (auto simp: on_fetched_def report_def abort_def Let_def pushed_def split: fetch_result.splits)
  ultimately show ?thesis by blast
qed

theorem results_only_from_data_witness:
  "pc (fetchBatchProcesses (example_args 1 2 True) [timed_out 2, answered 1])
     = Returned [example_record ''018/000001/2025'']
   \<and> results (fetchBatchProcesses (example_args 1 2 True) [timed_out 2, answered 1])
     = [example_record ''018/000001/2025'']
   \<and> example_record ''018/000001/2025''
       \<in> produced (example_args 1 2 True) (answered 1)
   \<and> produced (example_args 1 2 True) (timed_out 2) = {}"
proof -
  have p: "pc (fetchBatchProcesses (example_args 1 2 True) [timed_out 2, answered 1])
     = Returned [example_record ''018/000001/2025'']"
    by (simp add: run_two)
  have q: "produced (example_args 1 2 True) (timed_out 2) = {}"
    by (simp add: produced_def timed_out_def fetch_timed_out)
  have r: "results (fetchBatchProcesses (example_args 1 2 True) [timed_out 2, answered 1])
     = [example_record ''018/000001/2025'']"
    by (simp add: run_two)
  from results_only_from_data
    [of "example_args 1 2 True" "[timed_out 2, answered 1]" "[example_record ''018/000001/2025'']"]
  have "set (results (fetchBatchProcesses (example_args 1 2 True) [timed_out 2, answered 1]))
     \<subseteq> (\<Union>e\<in>set [timed_out 2, answered 1]. produced (example_args 1 2 True) e)"
    by blast
  then have "example_record ''018/000001/2025'' \<in> produced (example_args 1 2 True) (answered 1)"
    unfolding r using q by simp
  with p q r show ?thesis by simp
qed

end
